theory Spec2Isabelle
  imports Complex_Main
begin

section \<open>JavaScript values\<close>

text \<open>
  The values the utilities receive at run time. A \<open>Number\<close> is a double: not-a-number,
  the two infinities, negative zero, or a finite value (\<open>Finite 0\<close> is positive zero).
  Strings are lists of characters with code points below 256. Functions are known by
  their reference, which is what \<open>===\<close> compares.
\<close>

datatype js_number = NaN | PosInfinity | NegInfinity | NegZero | Finite rat

datatype js_value =
    Undefined
  | Null
  | Boolean bool
  | Number js_number
  | String string
  | Object "(string \<times> js_value) list"
  | Array "js_value list"
  | Function nat

text \<open>\<open>ToBoolean\<close>, the test an \<open>if (item)\<close> performs.\<close>

fun truthy :: "js_value \<Rightarrow> bool" where
  "truthy Undefined = False"
| "truthy Null = False"
| "truthy (Boolean b) = b"
| "truthy (Number NaN) = False"
| "truthy (Number NegZero) = False"
| "truthy (Number (Finite r)) = (r \<noteq> 0)"
| "truthy (Number PosInfinity) = True"
| "truthy (Number NegInfinity) = True"
| "truthy (String s) = (s \<noteq> [])"
| "truthy (Object fs) = True"
| "truthy (Array xs) = True"
| "truthy (Function f) = True"

section \<open>ArrayUtils\<close>

text \<open>
  \<^verbatim>\<open>export function optional<T>(item: T | undefined | null): T[] {
      if (item) { return [item]; }
      return [];
  }\<close>
\<close>

definition optional :: "js_value \<Rightarrow> js_value list" where
  "optional item = (if truthy item then [item] else [])"

section \<open>Routing: prefixing the paths of routes\<close>

text \<open>
  A route is an object holding a reference to its \<open>opts\<close> object, its handler and an
  optional error handler; \<open>opts\<close> holds the path, the method and the optional lists of
  classic middleware and guards (the field \<open>method\<close> is \<open>route_method\<close> here). Both
  kinds of object live in a store, addressed by reference, because \<open>prefixPath\<close> assigns
  to \<open>route.opts.path\<close> in place and two routes may share one \<open>opts\<close> object.
\<close>

record route_opts =
  path :: string
  route_method :: string
  classicMiddleware :: "nat list option"
  guards :: "nat list option"

record route =
  opts :: nat
  handler :: nat
  error :: "nat option"

record store =
  routes :: "nat \<Rightarrow> route"
  options :: "nat \<Rightarrow> route_opts"

text \<open>
  \<^verbatim>\<open>export function prefixPath(route: Route, prefix: string): Route {
      route.opts.path = `${prefix}/${route.opts.path}`;
      return route;
  }\<close>
  The function takes the store and the reference of the route, and returns the updated
  store with the reference it returns.
\<close>

definition prefixPath :: "store \<Rightarrow> nat \<Rightarrow> string \<Rightarrow> store \<times> nat" where
  "prefixPath st r pfx =
     (let o_ref = opts (routes st r);
          o_old = options st o_ref
      in (st\<lparr>options := (options st)(o_ref := o_old\<lparr>path := pfx @ ''/'' @ path o_old\<rparr>)\<rparr>, r))"

text \<open>
  \<^verbatim>\<open>export function prefixPaths(routes: Route[], prefix: string): Route[] {
      for (let route of routes) { prefixPath(route, prefix); }
      return routes;
  }\<close>
\<close>

fun prefixPaths_loop :: "store \<Rightarrow> nat list \<Rightarrow> string \<Rightarrow> store" where
  "prefixPaths_loop st [] pfx = st"
| "prefixPaths_loop st (r # rs) pfx = prefixPaths_loop (fst (prefixPath st r pfx)) rs pfx"

definition prefixPaths :: "store \<Rightarrow> nat list \<Rightarrow> string \<Rightarrow> store \<times> nat list" where
  "prefixPaths st rs pfx = (prefixPaths_loop st rs pfx, rs)"

text \<open>How many elements of a list of routes point at the \<open>opts\<close> object \<open>o_ref\<close>.\<close>

definition occurrences :: "store \<Rightarrow> nat list \<Rightarrow> nat \<Rightarrow> nat" where
  "occurrences st rs o_ref = length (filter (\<lambda>r. opts (routes st r) = o_ref) rs)"

fun repeat_prefix :: "nat \<Rightarrow> string \<Rightarrow> string \<Rightarrow> string" where
  "repeat_prefix 0 pfx p = p"
| "repeat_prefix (Suc n) pfx p = pfx @ ''/'' @ repeat_prefix n pfx p"

section \<open>Errors sent to the client\<close>

text \<open>The \<open>typeof\<close> operator.\<close>

fun typeof :: "js_value \<Rightarrow> string" where
  "typeof Undefined = ''undefined''"
| "typeof Null = ''object''"
| "typeof (Boolean b) = ''boolean''"
| "typeof (Number n) = ''number''"
| "typeof (String s) = ''string''"
| "typeof (Object fs) = ''object''"
| "typeof (Array xs) = ''object''"
| "typeof (Function f) = ''function''"

text \<open>
  What \<open>JSON.stringify\<close> keeps of a value, which is what \<open>res.json\<close> puts on the
  wire: a property whose value is \<open>undefined\<close> or a function is left out of its object,
  such an element of an array becomes \<open>null\<close>, and so does a number that is not finite.
\<close>

fun serialisable :: "js_value \<Rightarrow> bool" where
  "serialisable Undefined = False"
| "serialisable (Function f) = False"
| "serialisable v = True"

primrec to_json :: "js_value \<Rightarrow> js_value" where
  "to_json Undefined = Undefined"
| "to_json Null = Null"
| "to_json (Boolean b) = Boolean b"
| "to_json (Number n) =
     (case n of Finite r \<Rightarrow> Number (Finite r) | NegZero \<Rightarrow> Number (Finite 0) | _ \<Rightarrow> Null)"
| "to_json (String s) = String s"
| "to_json (Object fs) =
     Object (filter (\<lambda>kv. serialisable (snd kv)) (map (map_prod id to_json) fs))"
| "to_json (Array xs) =
     Array (map (\<lambda>v. if serialisable v then v else Null) (map to_json xs))"
| "to_json (Function f) = Function f"

text \<open>
  \<^verbatim>\<open>export class RestError<T extends object> {
      private response: T | StandardRestError;
      public statusCode: number;
      constructor(message: T | string, code?: number, fields?: RestErrorFields) {
          if (typeof message === "string" && typeof code === "number") {
              this.response = { message, code, fields: fields as any };
              return;
          }
          if (typeof message === "object") { this.response = message; }
      }
      public get body(): T | StandardRestError { return this.response; }
      public static INTERNAL_ERROR(ref: string): RestError<StandardRestError> {
          const err = new RestError(`Internal error occurred. Tracking number: ${ref}`, 1002);
          err.statusCode = 500;
          return err as any;
      }
  }\<close>
  A field the constructor does not assign stays \<open>undefined\<close>.
\<close>

record RestError =
  response :: js_value
  statusCode :: js_value

definition new_RestError :: "js_value \<Rightarrow> js_value \<Rightarrow> js_value \<Rightarrow> RestError" where
  "new_RestError message code flds =
     (if typeof message = ''string'' \<and> typeof code = ''number''
      then \<lparr>response = Object [(''message'', message), (''code'', code), (''fields'', flds)],
            statusCode = Undefined\<rparr>
      else if typeof message = ''object''
      then \<lparr>response = message, statusCode = Undefined\<rparr>
      else \<lparr>response = Undefined, statusCode = Undefined\<rparr>)"

definition body :: "RestError \<Rightarrow> js_value" where
  "body e = response e"

definition INTERNAL_ERROR :: "string \<Rightarrow> RestError" where
  "INTERNAL_ERROR ref =
     (let err = new_RestError (String (''Internal error occurred. Tracking number: '' @ ref))
                  (Number (Finite 1002)) Undefined
      in err\<lparr>statusCode := Number (Finite 500)\<rparr>)"

section \<open>Security.random\<close>

text \<open>
  \<^verbatim>\<open>export function random(length: number): Promise<string> {
      return new Promise((resolve, reject) => {
          crypto.randomBytes(length / 2, function(err, buffer) {
              err ? reject(err) : resolve(buffer.toString("hex"));
          });
      })
  }\<close>
  The entropy source is a parameter: asked for \<open>n\<close> bytes it answers with an error or
  with a buffer. A buffer is a list of bytes, each a \<open>char\<close>. Every caller passes an
  even length (16, 32 or 64), for which \<open>length / 2\<close> is the integer quotient.
\<close>

type_synonym buffer = "char list"

datatype js_error = TypeError | EntropyError | UnknownUser | BadSignature | ExpressError

definition hex_digit :: "nat \<Rightarrow> char" where
  "hex_digit n = ''0123456789abcdef'' ! (n mod 16)"

definition hex_byte :: "char \<Rightarrow> string" where
  "hex_byte b = [hex_digit (of_char b div 16), hex_digit (of_char b mod 16)]"

definition to_hex :: "buffer \<Rightarrow> string" where
  "to_hex buf = concat (map hex_byte buf)"

definition random :: "(nat \<Rightarrow> js_error + buffer) \<Rightarrow> nat \<Rightarrow> js_error + string" where
  "random randomBytes len =
     (case randomBytes (len div 2) of Inl err \<Rightarrow> Inl err | Inr buf \<Rightarrow> Inr (to_hex buf))"

section \<open>The error middleware of the server\<close>

text \<open>
  \<^verbatim>\<open>this.server.use(async (err: any, _: any, res: any, __: any) => {
      const transmit = (error: RestError<any>) =>
          res.status(typeof error.statusCode === "number" ? error.statusCode : 400).json(error.body);
      if (err instanceof RestError) { transmit(err); return; }
      const tracking = await Security.random(16);
      transmit(RestError.INTERNAL_ERROR(tracking));
      Logger.error(`------- error reported`);
      Logger.error(`tracking ref: ${tracking}`);
      Logger.error(err);
      Logger.error(`------- eof`);
  });\<close>
  A thrown value is an instance of \<open>RestError\<close> or anything else, of which the model
  keeps the text the logger prints. The middleware returns the response it sent and the
  lines it logged; when the entropy source fails, the promise of \<open>Security.random\<close>
  rejects and nothing is sent.
\<close>

datatype thrown = Rest RestError | Internal string

record http_response =
  status :: js_value
  payload :: js_value

datatype level = Debug | Warn | Error

type_synonym log_line = "level \<times> string"

definition transmit :: "RestError \<Rightarrow> http_response" where
  "transmit err =
     \<lparr>status = (if typeof (statusCode err) = ''number'' then statusCode err
                else Number (Finite 400)),
      payload = to_json (body err)\<rparr>"

definition error_middleware ::
  "(nat \<Rightarrow> js_error + buffer) \<Rightarrow> thrown \<Rightarrow> js_error + http_response \<times> log_line list" where
  "error_middleware randomBytes err =
     (case err of
        Rest e \<Rightarrow> Inr (transmit e, [])
      | Internal detail \<Rightarrow>
          (case random randomBytes 16 of
             Inl failure \<Rightarrow> Inl failure
           | Inr tracking \<Rightarrow>
               Inr (transmit (INTERNAL_ERROR tracking),
                    [(Error, ''------- error reported''),
                     (Error, ''tracking ref: '' @ tracking),
                     (Error, detail),
                     (Error, ''------- eof'')])))"

section \<open>Constants and the test routes\<close>

text \<open>
  \<^verbatim>\<open>const prefix = <T>(routes: T, prefix: string) => {
      for (const key in routes) { routes[key] = `${prefix}${routes[key]}` as any; }
      return routes;
  }
  export const API_V0 = prefix({ TEST_1: "/test/1", TEST_2: "/test/2" }, "/api/v0");
  export const ERROR_CODES = {TEST_2: 1002}\<close>
  An object literal of constants is the list of its keys and values, in order.
\<close>

definition prefix :: "(string \<times> string) list \<Rightarrow> string \<Rightarrow> (string \<times> string) list" where
  "prefix rs pfx = map (\<lambda>kv. (fst kv, pfx @ snd kv)) rs"

definition API_V0 :: "(string \<times> string) list" where
  "API_V0 = prefix [(''TEST_1'', ''/test/1''), (''TEST_2'', ''/test/2'')] ''/api/v0''"

definition ERROR_CODES :: "(string \<times> rat) list" where
  "ERROR_CODES = [(''TEST_2'', 1002)]"

text \<open>
  \<^verbatim>\<open>let testIncr = 0;
  export = [
      { opts: { path: API_V0.TEST_1, method: "get" },
        handler(req, res, next) { res.json({test: "successful", number: testIncr++}); } },
      { opts: { path: API_V0.TEST_2, method: "get" },
        handler(req, res, next) { throw new RestError("Success!", ERROR_CODES.TEST_2); } }
  ] as Route[];\<close>
  The state of the module is the counter \<open>testIncr\<close>. It is a double that starts at 0, so
  it holds a whole number of at most \<open>2^53\<close>; at \<open>2^53\<close> adding one leaves it as it is,
  since \<open>2^53 + 1\<close> is not a double and rounds to \<open>2^53\<close>. A handler takes the counter and
  returns the new counter with what it did: it wrote a response, or it threw a
  \<open>RestError\<close>. \<open>res.json\<close> without \<open>res.status\<close> answers with status 200. Neither route
  has guards or classic middleware, so \<open>loadRoute\<close> hands Express the handler itself.
\<close>

datatype handler_result = Responded http_response | Threw RestError

record test_route =
  test_path :: string
  test_method :: string
  test_handler :: "nat \<Rightarrow> nat \<times> handler_result"

definition res_json :: "js_value \<Rightarrow> http_response" where
  "res_json v = \<lparr>status = Number (Finite 200), payload = to_json v\<rparr>"

definition post_increment :: "nat \<Rightarrow> nat" where
  "post_increment n = (if n < 9007199254740992 then n + 1 else n)"

definition test_1_handler :: "nat \<Rightarrow> nat \<times> handler_result" where
  "test_1_handler testIncr =
     (post_increment testIncr,
      Responded (res_json (Object [(''test'', String ''successful''),
                                   (''number'', Number (Finite (of_nat testIncr)))])))"

definition test_2_handler :: "nat \<Rightarrow> nat \<times> handler_result" where
  "test_2_handler testIncr =
     (testIncr,
      Threw (new_RestError (String ''Success!'')
               (Number (Finite (the (map_of ERROR_CODES ''TEST_2'')))) Undefined))"

definition test_routes :: "test_route list" where
  "test_routes =
     [\<lparr>test_path = the (map_of API_V0 ''TEST_1''), test_method = ''get'',
       test_handler = test_1_handler\<rparr>,
      \<lparr>test_path = the (map_of API_V0 ''TEST_2''), test_method = ''get'',
       test_handler = test_2_handler\<rparr>]"

text \<open>
  A request as Express receives it from Node: the method (\<open>req.method\<close>, in capitals),
  the path of the URL without the query string, and what \<open>bodyParser.json()\<close> makes of
  the body: nothing to complain about, or an error (a body that claims to be JSON and
  is not, a body beyond the size limit, a request aborted while the body was read) whose
  text is given.
\<close>

record request =
  request_method :: string
  request_path :: string
  body_error :: "string option"

text \<open>
  How Express decides that a route is for a request. The route of a method also takes
  the requests of that method written in any case, and the route of \<open>get\<close> takes the
  requests of method \<open>HEAD\<close> when the path has no route of \<open>head\<close> (the test routes have
  none). The path of a route is compiled to a regular expression that ignores case and
  allows one slash after the path; this is written out for a path of letters, digits,
  and slashes that does not end in a slash, as the paths of \<open>API_V0\<close> are. Case is that
  of the letters \<open>A\<close> to \<open>Z\<close>.
\<close>

definition toLowerCase :: "string \<Rightarrow> string" where
  "toLowerCase s =
     map (\<lambda>c. if 65 \<le> (of_char c :: nat) \<and> (of_char c :: nat) \<le> 90
                then char_of ((of_char c :: nat) + 32) else c) s"

definition handles_method :: "string \<Rightarrow> string \<Rightarrow> bool" where
  "handles_method route_m request_m =
     (toLowerCase request_m = route_m
      \<or> (toLowerCase request_m = ''head'' \<and> route_m = ''get''))"

definition path_matches :: "string \<Rightarrow> string \<Rightarrow> bool" where
  "path_matches route_p request_p =
     (toLowerCase request_p = toLowerCase route_p
      \<or> toLowerCase request_p = toLowerCase route_p @ ''/'')"

text \<open>
  One request against the server that \<open>loadServer\<close> sets up with the test routes, layer
  by layer in the order of registration. The logging middleware passes every request
  on. An error of \<open>bodyParser.json()\<close> goes past the routes to the error middleware,
  which is given an error that is not a \<open>RestError\<close>. Otherwise Express runs the first
  registered route that is for the request; what the handler throws goes to the error
  middleware. A request that no route is for passes the cookie parser and reaches
  \<open>express.static\<close>, the parameter \<open>staticFiles\<close>, which writes a response or passes
  the request on to the last middleware,
  \<^verbatim>\<open>res.status(404).json({code: "404", message: "Not found."})\<close>.
  The result is the new counter and the response as the application writes it with
  \<open>res.status\<close> and \<open>res.json\<close>, or the error that left the request without one. What
  Express puts on the wire for that response is not described: to a request of method
  \<open>HEAD\<close> it sends the head only, and to a conditional request whose validators match it
  sends 304 without the body.
\<close>

definition not_found :: http_response where
  "not_found = \<lparr>status = Number (Finite 404),
                 payload = to_json (Object [(''code'', String ''404''),
                                            (''message'', String ''Not found.'')])\<rparr>"

definition serve ::
  "(nat \<Rightarrow> js_error + buffer) \<Rightarrow> (request \<Rightarrow> http_response option) \<Rightarrow> test_route list
     \<Rightarrow> nat \<Rightarrow> request \<Rightarrow> nat \<times> (js_error + http_response)" where
  "serve randomBytes staticFiles rs testIncr req =
     (case body_error req of
        Some detail \<Rightarrow>
          (testIncr, map_sum id fst (error_middleware randomBytes (Internal detail)))
      | None \<Rightarrow>
          (case find (\<lambda>r. path_matches (test_path r) (request_path req)
                          \<and> handles_method (test_method r) (request_method req)) rs of
             None \<Rightarrow>
               (testIncr, Inr (case staticFiles req of Some resp \<Rightarrow> resp | None \<Rightarrow> not_found))
           | Some r \<Rightarrow>
               (case test_handler r testIncr of
                  (testIncr', Responded resp) \<Rightarrow> (testIncr', Inr resp)
                | (testIncr', Threw err) \<Rightarrow>
                    (testIncr', map_sum id fst (error_middleware randomBytes (Rest err))))))"

text \<open>The counter after a sequence of requests, served one after the other.\<close>

fun serve_all ::
  "(nat \<Rightarrow> js_error + buffer) \<Rightarrow> (request \<Rightarrow> http_response option) \<Rightarrow> test_route list
     \<Rightarrow> nat \<Rightarrow> request list \<Rightarrow> nat" where
  "serve_all randomBytes staticFiles rs testIncr [] = testIncr"
| "serve_all randomBytes staticFiles rs testIncr (req # reqs) =
     serve_all randomBytes staticFiles rs (fst (serve randomBytes staticFiles rs testIncr req)) reqs"

text \<open>
  The requests that Express gives to the \<open>get\<close> route of a path: those whose body the
  parser lets through, whose path matches, and whose method is \<open>GET\<close> or \<open>HEAD\<close>.
\<close>

definition reaches :: "string \<Rightarrow> request \<Rightarrow> bool" where
  "reaches route_p req =
     (body_error req = None \<and> path_matches route_p (request_path req)
      \<and> handles_method ''get'' (request_method req))"

text \<open>
  Examples: requests for the first test route with the methods \<open>GET\<close> and \<open>HEAD\<close> and
  with a path in other letters and with a slash at its end, an entropy source that
  fails, and a directory of static files that is empty.
\<close>

definition get_test_1 :: request where
  "get_test_1 = \<lparr>request_method = ''GET'', request_path = ''/api/v0/test/1'', body_error = None\<rparr>"

definition head_test_1 :: request where
  "head_test_1 = \<lparr>request_method = ''HEAD'', request_path = ''/api/v0/test/1'', body_error = None\<rparr>"

definition get_test_1_variant :: request where
  "get_test_1_variant =
     \<lparr>request_method = ''GET'', request_path = ''/API/v0/Test/1/'', body_error = None\<rparr>"

definition get_test_2 :: request where
  "get_test_2 = \<lparr>request_method = ''GET'', request_path = ''/api/v0/test/2'', body_error = None\<rparr>"

definition no_entropy :: "nat \<Rightarrow> js_error + buffer" where
  "no_entropy n = Inl EntropyError"

definition no_static :: "request \<Rightarrow> http_response option" where
  "no_static req = None"

section \<open>Loading routes into the server\<close>

text \<open>
  Reading a property: of \<open>null\<close> and \<open>undefined\<close> it throws a \<open>TypeError\<close>; of an object
  it gives the value bound to the key (the first binding in the list) or \<open>undefined\<close>;
  of any other value it gives \<open>undefined\<close> for the keys read here.
\<close>

fun get_prop :: "js_value \<Rightarrow> string \<Rightarrow> js_error + js_value" where
  "get_prop Undefined k = Inl TypeError"
| "get_prop Null k = Inl TypeError"
| "get_prop (Object fs) k = Inr (case map_of fs k of Some v \<Rightarrow> v | None \<Rightarrow> Undefined)"
| "get_prop v k = Inr Undefined"

text \<open>Sequencing of steps that may throw.\<close>

definition and_then :: "js_error + 'a \<Rightarrow> ('a \<Rightarrow> js_error + 'b) \<Rightarrow> js_error + 'b" where
  "and_then m f = (case m of Inl e \<Rightarrow> Inl e | Inr a \<Rightarrow> f a)"

text \<open>
  \<^verbatim>\<open>const isRoute = (route: any): route is Route => {
      return typeof route === "object"
          && typeof route.opts === "object"
          && typeof route.opts.path === "string"
          && typeof route.opts.method === "string"
          && (route.opts.method === "get" || route.opts.method === "post"
              || route.opts.method === "options" || route.opts.method === "patch"
              || route.opts.method === "delete")
          && typeof route.handler === "function";
  };\<close>
  The conjunction is evaluated from left to right and stops at the first false operand.
\<close>

definition isRoute :: "js_value \<Rightarrow> js_error + bool" where
  "isRoute route =
     (if typeof route \<noteq> ''object'' then Inr False
      else and_then (get_prop route ''opts'') (\<lambda>ro.
        if typeof ro \<noteq> ''object'' then Inr False
        else and_then (get_prop ro ''path'') (\<lambda>rp.
          if typeof rp \<noteq> ''string'' then Inr False
          else and_then (get_prop ro ''method'') (\<lambda>rm.
            if typeof rm \<noteq> ''string'' then Inr False
            else if \<not> (rm = String ''get'' \<or> rm = String ''post'' \<or> rm = String ''options''
                        \<or> rm = String ''patch'' \<or> rm = String ''delete'') then Inr False
            else and_then (get_prop route ''handler'') (\<lambda>rh.
              Inr (typeof rh = ''function''))))))"

text \<open>
  The server: the stack of routes Express holds, in the order of their registration, and
  the lines the logger has printed. A route of the stack has its method, its path and its
  callbacks; the last callback is the handler of the route itself, or the closure over
  its guards and handler that runs the guard chain.
\<close>

datatype callback = Plain js_value | Chain js_value js_value

record layer =
  layer_method :: string
  layer_path :: string
  layer_callbacks :: "callback list"

record server =
  stack :: "layer list"
  logged :: "log_line list"

text \<open>
  \<open>String.prototype.toUpperCase\<close> on the letters \<open>a\<close> to \<open>z\<close>, which are the only letters
  of a method name that \<open>isRoute\<close> accepts.
\<close>

definition toUpperCase :: "string \<Rightarrow> string" where
  "toUpperCase s =
     map (\<lambda>c. if 97 \<le> (of_char c :: nat) \<and> (of_char c :: nat) \<le> 122
                then char_of ((of_char c :: nat) - 32) else c) s"

text \<open>
  The spread \<open>...middleware\<close>: the elements of an array, the characters of a string, and
  a \<open>TypeError\<close> for a value that is not iterable.
\<close>

definition spread :: "js_value \<Rightarrow> js_error + js_value list" where
  "spread v =
     (case v of
        Array xs \<Rightarrow> Inr xs
      | String s \<Rightarrow> Inr (map (\<lambda>c. String [c]) s)
      | _ \<Rightarrow> Inl TypeError)"

text \<open>
  \<open>server[method](path, ...callbacks)\<close> of Express: nested arrays of callbacks are
  flattened, a callback that is not a function makes Express throw, and the route is
  added at the end of the stack. Nothing is looked up in the stack. The compilation of
  the path to a regular expression, at which Express throws for a path that is not a
  well-formed pattern, is not described: a path is taken as it is.
\<close>

fun flatten :: "js_value \<Rightarrow> js_value list" where
  "flatten (Array xs) = concat (map flatten xs)"
| "flatten v = [v]"

definition express_route ::
  "server \<Rightarrow> string \<Rightarrow> string \<Rightarrow> js_value list \<Rightarrow> callback \<Rightarrow> js_error + server" where
  "express_route srv m p middleware final =
     (let callbacks = concat (map flatten middleware)
      in if list_all (\<lambda>v. typeof v = ''function'') callbacks
         then Inr (srv\<lparr>stack := stack srv @
                [\<lparr>layer_method = m, layer_path = p,
                  layer_callbacks = map Plain callbacks @ [final]\<rparr>]\<rparr>)
         else Inl ExpressError)"

text \<open>
  \<^verbatim>\<open>private loadRoute(route: Route): void {
      if (!isRoute(route)) {
          Logger.warn("Not loading an invalid route in express");
          return;
      }
      Logger.debug(`[EXPRESS ROUTE] [${route.opts.method.toUpperCase()}] PATH: "${route.opts.path}"`);
      const middleware = (route.opts.classicMiddleware || []);
      if (!route.opts.guards) {
          this.server[route.opts.method](route.opts.path, ...middleware, route.handler as any);
          return;
      }
      this.server[route.opts.method](route.opts.path, ...middleware, (req, res) => { ... });
  }\<close>
  The result is the server after the call, or the error thrown.
\<close>

definition loadRoute :: "server \<Rightarrow> js_value \<Rightarrow> js_error + server" where
  "loadRoute srv route =
     and_then (isRoute route) (\<lambda>valid.
       if \<not> valid
       then Inr (srv\<lparr>logged := logged srv @ [(Warn, ''Not loading an invalid route in express'')]\<rparr>)
       else and_then (get_prop route ''opts'') (\<lambda>ro.
            and_then (get_prop ro ''method'') (\<lambda>rm.
            and_then (get_prop ro ''path'') (\<lambda>rp.
              case (rm, rp) of
                (String m, String p) \<Rightarrow>
                  (let srv1 = srv\<lparr>logged := logged srv @
                         [(Debug, ''[EXPRESS ROUTE] ['' @ toUpperCase m @ ''] PATH: ''
                                  @ [CHR 0x22] @ p @ [CHR 0x22])]\<rparr>
                   in and_then (get_prop ro ''classicMiddleware'') (\<lambda>cm.
                      and_then (spread (if truthy cm then cm else Array [])) (\<lambda>middleware.
                      and_then (get_prop ro ''guards'') (\<lambda>gs.
                      and_then (get_prop route ''handler'') (\<lambda>rh.
                        if \<not> truthy gs
                        then express_route srv1 m p middleware (Plain rh)
                        else express_route srv1 m p middleware (Chain gs rh))))))
              | _ \<Rightarrow> Inl TypeError))))"

text \<open>
  \<^verbatim>\<open>private async loadFile(filePath: string): Promise<void> {
      let rawFile: any;
      try { rawFile = require(filePath); }
      catch (e) { Logger.warn(`Couldn't load route(s) from ${filePath}`); console.warn(e); return; }
      if (typeof rawFile === "object" && rawFile.default) { rawFile = rawFile.default; }
      if (Array.isArray(rawFile)) {
          for (let i = 0; i < rawFile.length; i++) { this.loadRoute(rawFile[i]); }
      } else { this.loadRoute(rawFile); }
  }\<close>
  What \<open>require\<close> gave, a module or an error, is an argument.
\<close>

fun loadRoutes :: "server \<Rightarrow> js_value list \<Rightarrow> js_error + server" where
  "loadRoutes srv [] = Inr srv"
| "loadRoutes srv (r # rs) = and_then (loadRoute srv r) (\<lambda>srv'. loadRoutes srv' rs)"

definition loadFile :: "server \<Rightarrow> string \<Rightarrow> js_error + js_value \<Rightarrow> js_error + server" where
  "loadFile srv filePath required =
     (case required of
        Inl e \<Rightarrow>
          Inr (srv\<lparr>logged := logged srv @
                 [(Warn, ''Couldn'' @ [CHR 0x27] @ ''t load route(s) from '' @ filePath)]\<rparr>)
      | Inr rawFile \<Rightarrow>
          and_then (if typeof rawFile = ''object''
                    then and_then (get_prop rawFile ''default'')
                           (\<lambda>d. Inr (if truthy d then d else rawFile))
                    else Inr rawFile)
            (\<lambda>raw. case raw of Array rs \<Rightarrow> loadRoutes srv rs | _ \<Rightarrow> loadRoute srv raw))"

text \<open>
  Dispatch by Express: the first route of the stack with the method and path of the
  request takes it.
\<close>

definition dispatch :: "server \<Rightarrow> string \<Rightarrow> string \<Rightarrow> layer option" where
  "dispatch srv m p = find (\<lambda>l. layer_method l = m \<and> layer_path l = p) (stack srv)"

text \<open>The method and path of a route object, when both are strings.\<close>

definition route_key :: "js_value \<Rightarrow> (string \<times> string) option" where
  "route_key route =
     (case get_prop route ''opts'' of
        Inr ro \<Rightarrow>
          (case (get_prop ro ''method'', get_prop ro ''path'') of
             (Inr (String m), Inr (String p)) \<Rightarrow> Some (m, p)
           | _ \<Rightarrow> None)
      | Inl e \<Rightarrow> None)"

text \<open>
  Two route objects with the same method and path and different handlers, and a server
  that has loaded nothing.
\<close>

definition first_route :: js_value where
  "first_route =
     Object [(''opts'', Object [(''path'', String ''/x''), (''method'', String ''get'')]),
             (''handler'', Function 1)]"

definition second_route :: js_value where
  "second_route =
     Object [(''opts'', Object [(''path'', String ''/x''), (''method'', String ''get'')]),
             (''handler'', Function 2)]"

definition new_server :: server where
  "new_server = \<lparr>stack = [], logged = []\<rparr>"

section \<open>The guard chain of a route\<close>

text \<open>
  \<^verbatim>\<open>this.server[route.opts.method](route.opts.path, ...middleware, (req, res) => {
      let currentIndex: number = 0;
      let previous: any;
      const next: () => void = () => {
          const guard = (route.opts.guards as RouteHandler[])[currentIndex++];
          if (!guard || previous === guard) {
              route.handler((req as any), (res as any), () => null);
          } else {
              previous = guard;
              guard(req as any, res as any, next);
          }
      };
      next();
  });\<close>
  A guard or handler is a function, known by its reference; \<open>code\<close> gives what the
  function of a reference does when called with \<open>(req, res, next)\<close>: a sequence of
  actions, each writing a response or calling the \<open>next\<close> it was given. The state of one
  request is the two variables of the closure and the trace of what has happened.
  The \<open>next\<close> given to the terminal handler is \<open>() => null\<close>, so its calls do nothing.
  A call of \<open>next\<close> runs to its end before the caller goes on; a guard that throws, or
  that keeps \<open>next\<close> and calls it after it has returned, is not described.
\<close>

datatype action = Send http_response | Proceed

record chain =
  chain_guards :: "nat list"
  chain_handler :: nat
  code :: "nat \<Rightarrow> action list"

datatype event = GuardCalled nat | HandlerCalled | Sent nat http_response

record request_state =
  currentIndex :: nat
  previous :: "nat option"
  trace :: "event list"

fun sends :: "nat \<Rightarrow> action list \<Rightarrow> event list" where
  "sends f [] = []"
| "sends f (Send r # as) = Sent f r # sends f as"
| "sends f (Proceed # as) = sends f as"

definition call_handler :: "chain \<Rightarrow> request_state \<Rightarrow> request_state" where
  "call_handler c s =
     s\<lparr>trace := trace s @ HandlerCalled # sends (chain_handler c) (code c (chain_handler c))\<rparr>"

function next_call :: "chain \<Rightarrow> request_state \<Rightarrow> request_state"
  and run_guard :: "chain \<Rightarrow> nat \<Rightarrow> action list \<Rightarrow> request_state \<Rightarrow> request_state" where
  "next_call c s =
     (let i = currentIndex s;
          s1 = s\<lparr>currentIndex := i + 1\<rparr>
      in if i < length (chain_guards c) \<and> previous s1 \<noteq> Some (chain_guards c ! i)
         then run_guard c (chain_guards c ! i) (code c (chain_guards c ! i))
                (s1\<lparr>previous := Some (chain_guards c ! i),
                    trace := trace s1 @ [GuardCalled (chain_guards c ! i)]\<rparr>)
         else call_handler c s1)"
| "run_guard c g [] s = s"
| "run_guard c g (Send r # as) s = run_guard c g as (s\<lparr>trace := trace s @ [Sent g r]\<rparr>)"
| "run_guard c g (Proceed # as) s = run_guard c g as (next_call c s)"
  by pat_completeness auto

lemma next_call_advances:
  "next_call_run_guard_dom (Inl (c, s)) \<Longrightarrow> currentIndex s < currentIndex (next_call c s)"
  "next_call_run_guard_dom (Inr (c, g, as, s)) \<Longrightarrow> currentIndex s \<le> currentIndex (run_guard c g as s)"
proof (induction c s and c g as s rule: next_call_run_guard.pinduct)
  case (1 c s)
  show ?case
  proof (cases "currentIndex s < length (chain_guards c)
                \<and> previous s \<noteq> Some (chain_guards c ! currentIndex s)")
    case True
    with "1.IH" [OF refl refl] have "Suc (currentIndex s) \<le> currentIndex
        (run_guard c (chain_guards c ! currentIndex s) (code c (chain_guards c ! currentIndex s))
          (s\<lparr>currentIndex := currentIndex s + 1,
              previous := Some (chain_guards c ! currentIndex s),
              trace := trace (s\<lparr>currentIndex := currentIndex s + 1\<rparr>)
                       @ [GuardCalled (chain_guards c ! currentIndex s)]\<rparr>))"
      by simp
    with True "1.hyps" show ?thesis
      by (simp add: next_call.psimps Let_def)
  next
    case False
    with "1.hyps" show ?thesis
      by (auto simp add: next_call.psimps Let_def call_handler_def)
  qed
next
  case (2 c g s)
  then show ?case by (simp add: run_guard.psimps)
next
  case (3 c g r as s)
  then show ?case by (simp add: run_guard.psimps)
next
  case (4 c g as s)
  then show ?case by (simp add: run_guard.psimps)
qed

termination next_call
proof (relation "measures
    [\<lambda>x. case x of Inl (c, s) \<Rightarrow> length (chain_guards c) - currentIndex s
                | Inr (c, g, as, s) \<Rightarrow> length (chain_guards c) - currentIndex s,
     \<lambda>x. case x of Inl (c, s) \<Rightarrow> 0 | Inr (c, g, as, s) \<Rightarrow> Suc (length as)]",
    goal_cases)
  case 1
  show ?case by simp
next
  case (2 c s i s1)
  then show ?case by auto
next
  case (3 c g r as s)
  show ?case by simp
next
  case (4 c g as s)
  show ?case by simp
next
  case (5 c g as s)
  then have "currentIndex s < currentIndex (next_call c s)"
    by (rule next_call_advances(1))
  then show ?case by auto
qed

text \<open>The handler Express calls for a request: fresh variables, then \<open>next()\<close>.\<close>

definition run_chain :: "chain \<Rightarrow> request_state" where
  "run_chain c = next_call c \<lparr>currentIndex = 0, previous = None, trace = []\<rparr>"

declare next_call.simps [simp del]

text \<open>The guards a trace shows as called, in the order of the calls.\<close>

fun guard_calls :: "event list \<Rightarrow> nat list" where
  "guard_calls [] = []"
| "guard_calls (GuardCalled g # es) = g # guard_calls es"
| "guard_calls (e # es) = guard_calls es"

text \<open>A guard that calls \<open>next\<close> at most once.\<close>

definition proceeds_once :: "chain \<Rightarrow> nat \<Rightarrow> bool" where
  "proceeds_once c g = (count_list (code c g) Proceed \<le> 1)"

text \<open>
  Example chains. The handler is the function 0 and answers 200. In the first two the
  guards are \<open>[G1, G2]\<close>, the functions 1 and 2, and G2 writes a rejection without
  calling \<open>next\<close>; G1 calls \<open>next\<close> once in the first and twice in the second. In the
  third the same function is listed twice in a row and calls \<open>next\<close> twice. In the
  fourth the guards are \<open>[G1, G2, G3]\<close>; G1 calls \<open>next\<close> twice, G2 and G3 each write a
  rejection without calling \<open>next\<close>.
\<close>

definition rejection :: http_response where
  "rejection = \<lparr>status = Number (Finite 403), payload = String ''Forbidden''\<rparr>"

definition success :: http_response where
  "success = \<lparr>status = Number (Finite 200), payload = String ''OK''\<rparr>"

definition chain_once_then_reject :: chain where
  "chain_once_then_reject =
     \<lparr>chain_guards = [1, 2], chain_handler = 0,
      code = (\<lambda>f. if f = 1 then [Proceed] else if f = 2 then [Send rejection] else [Send success])\<rparr>"

definition chain_twice_then_reject :: chain where
  "chain_twice_then_reject =
     \<lparr>chain_guards = [1, 2], chain_handler = 0,
      code = (\<lambda>f. if f = 1 then [Proceed, Proceed] else if f = 2 then [Send rejection]
                  else [Send success])\<rparr>"






definition in_order :: "chain \<Rightarrow> request_state \<Rightarrow> bool" where
  "in_order c s =
     (HandlerCalled \<notin> set (trace s)
      \<and> guard_calls (trace s) = take (currentIndex s) (chain_guards c)
      \<and> currentIndex s \<le> length (chain_guards c))"

definition settled :: "chain \<Rightarrow> request_state \<Rightarrow> bool" where
  "settled c s =
     ((\<exists>k. guard_calls (trace s) = take k (chain_guards c))
      \<and> (\<forall>g \<in> set (butlast (guard_calls (trace s))). Proceed \<in> set (code c g))
      \<and> (HandlerCalled \<in> set (trace s)
           \<longrightarrow> (\<forall>g \<in> set (guard_calls (trace s)). Proceed \<in> set (code c g))))"

text \<open>
  The transition rule of the chain, written out for guards that call \<open>next\<close> at most
  once: with no guard left, the terminal handler is called; a guard that is the one called
  just before is not called again and the terminal handler is called instead; any other
  guard is called, and what follows happens at the point where it calls \<open>next\<close>, between
  what it writes before and after; a guard that does not call \<open>next\<close> ends the chain.
\<close>

fun expected_trace :: "chain \<Rightarrow> nat option \<Rightarrow> nat list \<Rightarrow> event list" where
  "expected_trace c prev [] = HandlerCalled # sends (chain_handler c) (code c (chain_handler c))"
| "expected_trace c prev (g # gs) =
     (if prev = Some g
      then HandlerCalled # sends (chain_handler c) (code c (chain_handler c))
      else if Proceed \<in> set (code c g)
      then GuardCalled g # sends g (takeWhile (\<lambda>a. a \<noteq> Proceed) (code c g))
             @ expected_trace c (Some g) gs
             @ sends g (tl (dropWhile (\<lambda>a. a \<noteq> Proceed) (code c g)))
      else GuardCalled g # sends g (code c g))"

section \<open>Tokens: encodings\<close>

text \<open>
  \<^verbatim>\<open>const decodeBase64 = (data: string) => Buffer.from(data, "base64").toString("ascii");
  const encodeBase64 = (data: string) => Buffer.from(data).toString("base64");\<close>
  \<open>Buffer.from(data)\<close> encodes a string in UTF-8: a character below 128 is one byte, a
  character from 128 to 255 is two. \<open>toString("base64")\<close> writes three bytes as four
  characters of the alphabet and pads the last group with \<open>=\<close>.
\<close>

definition utf8_encode :: "string \<Rightarrow> buffer" where
  "utf8_encode s =
     concat (map (\<lambda>c. if (of_char c :: nat) < 128 then [c]
                        else [char_of (192 + (of_char c :: nat) div 64),
                              char_of (128 + (of_char c :: nat) mod 64)]) s)"

definition base64_alphabet :: string where
  "base64_alphabet = ''ABCDEFGHIJKLMNOPQRSTUVWXYZabcdefghijklmnopqrstuvwxyz0123456789+/''"

definition base64_char :: "nat \<Rightarrow> char" where
  "base64_char n = base64_alphabet ! (n mod 64)"

fun sextets_of :: "buffer \<Rightarrow> nat list" where
  "sextets_of (a # b # c # rest) =
     [(of_char a) div 4,
      ((of_char a) mod 4) * 16 + (of_char b) div 16,
      ((of_char b) mod 16) * 4 + (of_char c) div 64,
      (of_char c) mod 64] @ sextets_of rest"
| "sextets_of [a, b] =
     [(of_char a) div 4,
      ((of_char a) mod 4) * 16 + (of_char b) div 16,
      ((of_char b) mod 16) * 4]"
| "sextets_of [a] = [(of_char a) div 4, ((of_char a) mod 4) * 16]"
| "sextets_of [] = []"

definition base64_encode :: "buffer \<Rightarrow> string" where
  "base64_encode buf =
     map base64_char (sextets_of buf) @ replicate ((3 - length buf mod 3) mod 3) (CHR ''='')"

definition encodeBase64 :: "string \<Rightarrow> string" where
  "encodeBase64 data = base64_encode (utf8_encode data)"

text \<open>
  \<open>Buffer.from(data, "base64")\<close> never throws: it reads the characters of both base64
  alphabets (\<open>-\<close> and \<open>_\<close> stand for \<open>+\<close> and \<open>/\<close>), skips every other character and
  stops at the first \<open>=\<close>; four characters give three bytes, and two or three characters
  left at the end give one or two bytes. \<open>toString("ascii")\<close> clears the highest bit of
  every byte.
\<close>

definition unbase64 :: "char \<Rightarrow> nat option" where
  "unbase64 c =
     (if c = CHR ''-'' then Some 62
      else if c = CHR ''_'' then Some 63
      else if c \<in> set base64_alphabet
      then Some (length (takeWhile (\<lambda>x. x \<noteq> c) base64_alphabet))
      else None)"

fun bytes_of :: "nat list \<Rightarrow> buffer" where
  "bytes_of (a # b # c # d # rest) =
     [char_of (a * 4 + b div 16), char_of ((b mod 16) * 16 + c div 4),
      char_of ((c mod 4) * 64 + d)] @ bytes_of rest"
| "bytes_of [a, b, c] = [char_of (a * 4 + b div 16), char_of ((b mod 16) * 16 + c div 4)]"
| "bytes_of [a, b] = [char_of (a * 4 + b div 16)]"
| "bytes_of [a] = []"
| "bytes_of [] = []"

definition base64_decode :: "string \<Rightarrow> buffer" where
  "base64_decode s = bytes_of (List.map_filter unbase64 (takeWhile (\<lambda>c. c \<noteq> CHR ''='') s))"

definition ascii_decode :: "buffer \<Rightarrow> string" where
  "ascii_decode buf = map (\<lambda>b. char_of ((of_char b :: nat) mod 128)) buf"

definition decodeBase64 :: "string \<Rightarrow> string" where
  "decodeBase64 data = ascii_decode (base64_decode data)"

section \<open>Tokens: numbers and instants\<close>

text \<open>
  \<open>Date.now() + ""\<close>: the decimal text of an integer, with a minus sign when it is
  negative.
\<close>

fun digits_of :: "nat \<Rightarrow> string" where
  "digits_of n =
     (if n < 10 then [char_of (48 + n)] else digits_of (n div 10) @ [char_of (48 + n mod 10)])"

declare digits_of.simps [simp del]

definition number_to_string :: "int \<Rightarrow> string" where
  "number_to_string n = (if n < 0 then CHR ''-'' # digits_of (nat (- n)) else digits_of (nat n))"

text \<open>
  The conversion of a string to a number, which \<open>(text as any) * 1\<close> performs: white
  space around the text is dropped; the empty text is 0; \<open>0x\<close>, \<open>0o\<close> and \<open>0b\<close> start
  a hexadecimal, octal or binary integer; otherwise the text is an optional sign followed
  by \<open>Infinity\<close> or by a decimal literal with an optional fraction and exponent; any
  other text is \<open>NaN\<close>. A \<open>Finite\<close> result holds the value the literal denotes; the
  rounding of that value to a double is not modelled.
\<close>

definition str_white_space :: "char \<Rightarrow> bool" where
  "str_white_space c = ((of_char c :: nat) \<in> set [9, 10, 11, 12, 13, 32, 160])"

definition trim :: "string \<Rightarrow> string" where
  "trim s = rev (dropWhile str_white_space (rev (dropWhile str_white_space s)))"

definition digit_value :: "char \<Rightarrow> nat option" where
  "digit_value c =
     (let n = (of_char c :: nat)
      in if 48 \<le> n \<and> n \<le> 57 then Some (n - 48)
         else if 97 \<le> n \<and> n \<le> 102 then Some (n - 87)
         else if 65 \<le> n \<and> n \<le> 70 then Some (n - 55)
         else None)"

definition is_digit :: "nat \<Rightarrow> char \<Rightarrow> bool" where
  "is_digit radix c = (case digit_value c of Some d \<Rightarrow> d < radix | None \<Rightarrow> False)"

definition digits_value :: "nat \<Rightarrow> string \<Rightarrow> nat" where
  "digits_value radix ds = foldl (\<lambda>acc c. acc * radix + (case digit_value c of Some d \<Rightarrow> d | None \<Rightarrow> 0)) 0 ds"

definition radix_literal :: "nat \<Rightarrow> string \<Rightarrow> js_number" where
  "radix_literal radix ds =
     (if ds \<noteq> [] \<and> list_all (is_digit radix) ds
      then Finite (of_nat (digits_value radix ds)) else NaN)"

definition non_decimal_literal :: "string \<Rightarrow> js_number option" where
  "non_decimal_literal s =
     (case s of
        z # x # ds \<Rightarrow>
          if z \<noteq> CHR ''0'' then None
          else if x = CHR ''x'' \<or> x = CHR ''X'' then Some (radix_literal 16 ds)
          else if x = CHR ''o'' \<or> x = CHR ''O'' then Some (radix_literal 8 ds)
          else if x = CHR ''b'' \<or> x = CHR ''B'' then Some (radix_literal 2 ds)
          else None
      | _ \<Rightarrow> None)"

definition decimal_digits :: "string \<Rightarrow> nat option" where
  "decimal_digits ds =
     (if ds \<noteq> [] \<and> list_all (is_digit 10) ds then Some (digits_value 10 ds) else None)"

definition exponent_part :: "string \<Rightarrow> int option" where
  "exponent_part s =
     (case s of
        [] \<Rightarrow> Some 0
      | e # t \<Rightarrow>
          if e = CHR ''e'' \<or> e = CHR ''E''
          then (case t of
                  [] \<Rightarrow> None
                | sg # ds \<Rightarrow>
                    if sg = CHR ''+'' then map_option int (decimal_digits ds)
                    else if sg = CHR ''-'' then map_option (\<lambda>n. - int n) (decimal_digits ds)
                    else map_option int (decimal_digits t))
          else None)"

definition scale :: "nat \<Rightarrow> int \<Rightarrow> rat" where
  "scale m e = (if 0 \<le> e then of_nat m * 10 ^ nat e else of_nat m / 10 ^ nat (- e))"

definition unsigned_decimal_literal :: "string \<Rightarrow> rat option" where
  "unsigned_decimal_literal s =
     (let ip = takeWhile (is_digit 10) s;
          r1 = dropWhile (is_digit 10) s;
          dot = (r1 \<noteq> [] \<and> hd r1 = CHR ''.'');
          fp = (if dot then takeWhile (is_digit 10) (tl r1) else []);
          r2 = (if dot then dropWhile (is_digit 10) (tl r1) else r1)
      in if ip = [] \<and> fp = [] then None
         else map_option (\<lambda>e. scale (digits_value 10 (ip @ fp)) (e - int (length fp)))
                (exponent_part r2))"

definition signed_literal :: "bool \<Rightarrow> string \<Rightarrow> js_number" where
  "signed_literal negative s =
     (if s = ''Infinity'' then (if negative then NegInfinity else PosInfinity)
      else (case unsigned_decimal_literal s of
              None \<Rightarrow> NaN
            | Some v \<Rightarrow> if negative then (if v = 0 then NegZero else Finite (- v)) else Finite v))"

definition str_decimal_literal :: "string \<Rightarrow> js_number" where
  "str_decimal_literal s =
     (case s of
        [] \<Rightarrow> signed_literal False s
      | c # t \<Rightarrow>
          if c = CHR ''+'' then signed_literal False t
          else if c = CHR ''-'' then signed_literal True t
          else signed_literal False s)"

definition to_number :: "string \<Rightarrow> js_number" where
  "to_number s =
     (let t = trim s
      in if t = [] then Finite 0
         else (case non_decimal_literal t of
                 Some n \<Rightarrow> n
               | None \<Rightarrow> str_decimal_literal t))"

definition isNaN :: "js_number \<Rightarrow> bool" where
  "isNaN n = (n = NaN)"

text \<open>
  \<^verbatim>\<open>const timestamp = new Date();
  timestamp.setTime(timestampEpoch);
  if (isNaN(timestamp.getTime())) { return null; }\<close>
  \<open>setTime\<close> makes the date invalid when the number is not finite or lies outside
  \<open>\<plusminus>8.64e15\<close>, and keeps the number without its fraction (rounded toward zero) otherwise.
  A double of that size is a whole number, so a literal is inside the range when its
  value is at most one half beyond it. The rounding of the value of a literal to a
  double is not modelled apart from that: a whole number up to \<open>8.64e15\<close> is a double.
\<close>

definition to_integer :: "rat \<Rightarrow> int" where
  "to_integer v = (if 0 \<le> v then \<lfloor>v\<rfloor> else - \<lfloor>- v\<rfloor>)"

definition setTime :: "js_number \<Rightarrow> rat option" where
  "setTime n =
     (case n of
        Finite v \<Rightarrow> if \<bar>v\<bar> \<le> 8640000000000000 + 1 / 2 then Some (of_int (to_integer v)) else None
      | NegZero \<Rightarrow> Some 0
      | _ \<Rightarrow> None)"

section \<open>Tokens: signing and verification\<close>

text \<open>The user entity, as far as tokens read it.\<close>

record User =
  snowflake :: string
  username :: string
  password :: "string option"
  salt :: string

text \<open>
  \<^verbatim>\<open>export function snowflake(): Promise<string> {
      return new Promise((resolve, reject) => {
          flaker.next((err, id) => {
              err ? reject(err) : resolve(uintformat(id, 'dec'));
          });
      });
  }\<close>
  \<^verbatim>\<open>public async newSnowflake(): Promise<void> {
      this.snowflake = await Security.snowflake();
  }\<close>
  The generator \<open>flaker.next\<close> answers with an error or with an id, a buffer of eight
  bytes; its answer is the parameter. \<open>uintformat(id, 'dec')\<close> is the decimal text of
  the number that the bytes of the buffer are, the most significant byte first.
  \<open>newSnowflake\<close> is the only place that gives a user its snowflake.
\<close>

definition big_endian :: "buffer \<Rightarrow> nat" where
  "big_endian buf = foldl (\<lambda>n b. 256 * n + of_char b) 0 buf"

definition uintformat_dec :: "buffer \<Rightarrow> string" where
  "uintformat_dec buf = digits_of (big_endian buf)"

definition Security_snowflake :: "js_error + buffer \<Rightarrow> js_error + string" where
  "Security_snowflake flaker_next =
     (case flaker_next of Inl err \<Rightarrow> Inl err | Inr ident \<Rightarrow> Inr (uintformat_dec ident))"

definition newSnowflake :: "js_error + buffer \<Rightarrow> User \<Rightarrow> js_error + User" where
  "newSnowflake flaker_next user =
     (case Security_snowflake flaker_next of
        Inl err \<Rightarrow> Inl err
      | Inr s \<Rightarrow> Inr (user\<lparr>snowflake := s\<rparr>))"

text \<open>\<open>token.split(".")\<close>: the pieces between the dots; the empty string has one piece.\<close>

fun split_dots :: "string \<Rightarrow> string list" where
  "split_dots [] = [[]]"
| "split_dots (c # cs) =
     (if c = CHR ''.'' then [] # split_dots cs
      else (case split_dots cs of x # xs \<Rightarrow> (c # x) # xs | [] \<Rightarrow> [[c]]))"

text \<open>
  Modelled from the spec: the signer \<open>nobi(secret)\<close> comes from the package \<open>nobi\<close>, which
  is not part of the repository. The specification describes the third segment of a
  token as a deterministic keyed signature over the first two segments joined by their
  delimiter, with the secret of the principal as key, and verification as recomputing
  that signature and comparing it byte for byte. The keyed signature is the parameter
  \<open>mac\<close> (key first, then message). \<open>sign\<close> appends a dot and the signature; \<open>unsign\<close>
  cuts the text at its last dot, throws when there is no dot or when what follows it is
  not the signature of what precedes it, and returns what precedes it otherwise.
\<close>

definition sign :: "(string \<Rightarrow> string \<Rightarrow> string) \<Rightarrow> string \<Rightarrow> string \<Rightarrow> string" where
  "sign mac secret v = v @ ''.'' @ mac secret v"

definition unsign ::
  "(string \<Rightarrow> string \<Rightarrow> string) \<Rightarrow> string \<Rightarrow> string \<Rightarrow> js_error + string" where
  "unsign mac secret signed =
     (if CHR ''.'' \<notin> set signed then Inl BadSignature
      else (let sig = rev (takeWhile (\<lambda>c. c \<noteq> CHR ''.'') (rev signed));
                v = rev (tl (dropWhile (\<lambda>c. c \<noteq> CHR ''.'') (rev signed)))
            in if sig = mac secret v then Inr v else Inl BadSignature))"

text \<open>
  \<^verbatim>\<open>export async function decodeToken(token: string): Promise<DecodedToken | null> {
      const chunks: string[] = token.split(".");
      if (chunks.length !== 3) { return null; }
      const [snowflakeBase64, timestampBase64] = chunks;
      const snowflake = decodeBase64(snowflakeBase64);
      const timestampEpoch = (decodeBase64(timestampBase64) as any) * 1;
      if (isNaN(timestampEpoch)) { return null; }
      const timestamp = new Date();
      timestamp.setTime(timestampEpoch);
      if (isNaN(timestamp.getTime())) { return null; }
      const user = await User.findOne({snowflake});
      if (!user) { return null; }
      const signer = nobi(user.salt);
      let hmacData: string;
      try { hmacData = signer.unsign(token); }
      catch (e) {
          Logger.warn(`Failed to decode HMAC data from token:`);
          console.warn(e);
          return null;
      }
      if (hmacData !== `${snowflakeBase64}.${timestampBase64}`) { return null; }
      return { snowflake, timestamp, hmac: hmacData, user };
  }\<close>
  \<open>User.findOne({snowflake})\<close> is the parameter \<open>findOne\<close>, a lookup by snowflake that
  finds a user or none. The result is \<open>None\<close> for \<open>null\<close>, with the lines logged on the
  way. The only exception, the one \<open>unsign\<close> throws, is caught.
\<close>

record DecodedToken =
  token_snowflake :: string
  token_timestamp :: rat
  token_hmac :: string
  token_user :: User

definition decodeToken ::
  "(string \<Rightarrow> string \<Rightarrow> string) \<Rightarrow> (string \<Rightarrow> User option) \<Rightarrow> string
     \<Rightarrow> DecodedToken option \<times> log_line list" where
  "decodeToken mac findOne token =
     (let chunks = split_dots token
      in if length chunks \<noteq> 3 then (None, [])
         else
           (let snowflakeBase64 = chunks ! 0;
                timestampBase64 = chunks ! 1;
                snowflake' = decodeBase64 snowflakeBase64;
                timestampEpoch = to_number (decodeBase64 timestampBase64)
            in if isNaN timestampEpoch then (None, [])
               else (case setTime timestampEpoch of
                       None \<Rightarrow> (None, [])
                     | Some timestamp \<Rightarrow>
                         (case findOne snowflake' of
                            None \<Rightarrow> (None, [])
                          | Some user \<Rightarrow>
                              (case unsign mac (salt user) token of
                                 Inl e \<Rightarrow> (None, [(Warn, ''Failed to decode HMAC data from token:'')])
                               | Inr hmacData \<Rightarrow>
                                   if hmacData \<noteq> snowflakeBase64 @ ''.'' @ timestampBase64
                                   then (None, [])
                                   else (Some \<lparr>token_snowflake = snowflake',
                                               token_timestamp = timestamp,
                                               token_hmac = hmacData,
                                               token_user = user\<rparr>, []))))))"

text \<open>
  \<^verbatim>\<open>export async function getUser(token: string): Promise<User | null> {
      const parsedToken = await decodeToken(token);
      return parsedToken && parsedToken.user;
  }\<close>
\<close>

definition getUser ::
  "(string \<Rightarrow> string \<Rightarrow> string) \<Rightarrow> (string \<Rightarrow> User option) \<Rightarrow> string \<Rightarrow> User option" where
  "getUser mac findOne token = map_option token_user (fst (decodeToken mac findOne token))"

text \<open>
  \<^verbatim>\<open>export async function createToken(user: User | string): Promise<string> {
      if (typeof user === "string") {
          const _user = await User.findOne(user)
          if (!_user) { throw new Error("Unknown user."); }
          user = _user;
      }
      const snowflakeBase64 = encodeBase64(user.snowflake);
      const timestampBase64 = encodeBase64(Date.now() + "");
      const signer = nobi(user.salt);
      const partialToken: string = `${snowflakeBase64}.${timestampBase64}`;
      const hmac: string = signer.sign(partialToken);
      return hmac;
  }\<close>
  \<open>User.findOne(user)\<close> with a string looks a user up by its id and is the parameter
  \<open>findById\<close>; \<open>Date.now()\<close> is the parameter \<open>now\<close>. What \<open>Date.now()\<close> returns is a time
  value: a whole number of milliseconds, at most \<open>8.64e15\<close> in absolute value. The type
  \<open>time_value\<close> has these numbers.
\<close>

typedef time_value = "{t :: int. \<bar>t\<bar> \<le> 8640000000000000}"
  by (rule exI [of _ 0]) simp

datatype user_arg = ByObject User | ById string

definition createToken ::
  "(string \<Rightarrow> string \<Rightarrow> string) \<Rightarrow> (string \<Rightarrow> User option) \<Rightarrow> int \<Rightarrow> user_arg
     \<Rightarrow> js_error + string" where
  "createToken mac findById now arg =
     and_then (case arg of
                 ById key \<Rightarrow> (case findById key of None \<Rightarrow> Inl UnknownUser | Some u \<Rightarrow> Inr u)
               | ByObject u \<Rightarrow> Inr u)
       (\<lambda>user.
          let snowflakeBase64 = encodeBase64 (snowflake user);
              timestampBase64 = encodeBase64 (number_to_string now);
              partialToken = snowflakeBase64 @ ''.'' @ timestampBase64
          in Inr (sign mac (salt user) partialToken))"

text \<open>
  Examples: a keyed function that stands in for the signature of \<open>nobi\<close> (the hexadecimal
  text of key and message, which has no dot), a user before and after a change of its
  salt, the id from which the generator makes the snowflake of that user, and stores
  that hold one user.
\<close>

definition example_mac :: "string \<Rightarrow> string \<Rightarrow> string" where
  "example_mac secret v = to_hex (secret @ v)"

definition alice :: User where
  "alice = \<lparr>snowflake = ''42'', username = ''alice'', password = None, salt = ''s1''\<rparr>"

definition alice_rotated :: User where
  "alice_rotated = \<lparr>snowflake = ''42'', username = ''alice'', password = None, salt = ''s2''\<rparr>"

definition alice_id :: buffer where
  "alice_id = [CHR 0x00, CHR 0x00, CHR 0x00, CHR 0x00, CHR 0x00, CHR 0x00, CHR 0x00, CHR 0x2A]"

definition store_of :: "User \<Rightarrow> string \<Rightarrow> User option" where
  "store_of u key = (if key = snowflake u then Some u else None)"

section \<open>Properties of ArrayUtils\<close>

text \<open>
  C9. \<open>optional\<close> returns the empty array for every falsy argument, among them
  \<open>null\<close>, \<open>undefined\<close>, \<open>0\<close>, the empty string, \<open>NaN\<close> and \<open>false\<close>, and the
  one-element array holding the argument for every truthy one.
\<close>

theorem optional_falsy_dropped:
  "optional item = (if truthy item then [item] else [])
   \<and> optional Null = [] \<and> optional Undefined = []
   \<and> optional (Number (Finite 0)) = [] \<and> optional (Number NegZero) = []
   \<and> optional (String []) = [] \<and> optional (Number NaN) = []
   \<and> optional (Boolean False) = []"
  by (simp add: optional_def)

section \<open>Properties of Routing\<close>

lemma repeat_prefix_shift:
  "repeat_prefix n pfx (pfx @ CHR ''/'' # p) = pfx @ CHR ''/'' # repeat_prefix n pfx p"
  by (induction n) simp_all

lemma prefixPath_routes: "routes (fst (prefixPath st r pfx)) = routes st"
  by (simp add: prefixPath_def Let_def)

lemma prefixPath_options:
  "options (fst (prefixPath st r pfx)) o_ref =
     (if o_ref = opts (routes st r)
      then (options st o_ref)\<lparr>path := pfx @ ''/'' @ path (options st o_ref)\<rparr>
      else options st o_ref)"
  by (simp add: prefixPath_def Let_def)

lemma occurrences_Cons:
  "occurrences st (r # rs) o_ref =
     (if opts (routes st r) = o_ref then Suc (occurrences st rs o_ref) else occurrences st rs o_ref)"
  by (simp add: occurrences_def)

lemma occurrences_routes:
  "routes st' = routes st \<Longrightarrow> occurrences st' rs o_ref = occurrences st rs o_ref"
  by (simp add: occurrences_def)

lemma prefixPaths_loop_routes: "routes (prefixPaths_loop st rs pfx) = routes st"
  by (induction rs arbitrary: st) (simp_all add: prefixPath_routes)

lemma prefixPaths_loop_options:
  "options (prefixPaths_loop st rs pfx) o_ref =
     (options st o_ref)\<lparr>path := repeat_prefix (occurrences st rs o_ref) pfx (path (options st o_ref))\<rparr>"
proof (induction rs arbitrary: st)
  case Nil
  show ?case by (simp add: occurrences_def)
next
  case (Cons r rs)
  let ?st1 = "fst (prefixPath st r pfx)"
  have occ: "occurrences ?st1 rs o_ref = occurrences st rs o_ref"
    by (rule occurrences_routes) (rule prefixPath_routes)
  show ?case
    by (simp add: Cons.IH occ prefixPath_options occurrences_Cons repeat_prefix_shift)
qed

text \<open>
  C10. \<open>prefixPath\<close> returns the reference it was given and changes the store in one
  place only: the path of the route's \<open>opts\<close> object becomes the prefix, a slash and the
  old path; the route objects, and the method, guards and classic middleware of every
  \<open>opts\<close> object, stay as they were. \<open>prefixPaths\<close> returns the list it was given and
  applies \<open>prefixPath\<close> to its elements from left to right, so the path of an \<open>opts\<close>
  object is prefixed once for every element of the list that points at it.
\<close>

theorem prefixPath_in_place:
  "snd (prefixPath st r pfx) = r
   \<and> routes (fst (prefixPath st r pfx)) = routes st
   \<and> path (options (fst (prefixPath st r pfx)) (opts (routes st r)))
       = pfx @ ''/'' @ path (options st (opts (routes st r)))
   \<and> route_method (options (fst (prefixPath st r pfx)) (opts (routes st r)))
       = route_method (options st (opts (routes st r)))
   \<and> guards (options (fst (prefixPath st r pfx)) (opts (routes st r)))
       = guards (options st (opts (routes st r)))
   \<and> classicMiddleware (options (fst (prefixPath st r pfx)) (opts (routes st r)))
       = classicMiddleware (options st (opts (routes st r)))
   \<and> snd (prefixPaths st rs pfx) = rs
   \<and> fst (prefixPaths st rs pfx) = fold (\<lambda>r s. fst (prefixPath s r pfx)) rs st
   \<and> routes (fst (prefixPaths st rs pfx)) = routes st
   \<and> options (fst (prefixPaths st rs pfx)) o_ref =
       (options st o_ref)\<lparr>path := repeat_prefix (occurrences st rs o_ref) pfx (path (options st o_ref))\<rparr>"
proof -
  have one: "snd (prefixPath st r pfx) = r"
    by (simp add: prefixPath_def Let_def)
  have fold_eq: "prefixPaths_loop s rs pfx = fold (\<lambda>r s. fst (prefixPath s r pfx)) rs s" for s
    by (induction rs arbitrary: s) simp_all
  have many: "fst (prefixPaths st rs pfx) = fold (\<lambda>r s. fst (prefixPath s r pfx)) rs st"
    by (simp add: prefixPaths_def fold_eq)
  have frame: "routes (fst (prefixPaths st rs pfx)) = routes st"
    by (simp add: prefixPaths_def prefixPaths_loop_routes)
  have paths: "options (fst (prefixPaths st rs pfx)) o_ref =
       (options st o_ref)\<lparr>path := repeat_prefix (occurrences st rs o_ref) pfx (path (options st o_ref))\<rparr>"
    by (simp add: prefixPaths_def prefixPaths_loop_options)
  show ?thesis
    using one many frame paths
    by (simp add: prefixPath_routes prefixPath_options prefixPaths_def)
qed

section \<open>Properties of the error middleware\<close>

lemma transmit_INTERNAL_ERROR:
  "transmit (INTERNAL_ERROR ref) =
     \<lparr>status = Number (Finite 500),
      payload = Object [(''message'', String (''Internal error occurred. Tracking number: '' @ ref)),
                        (''code'', Number (Finite 1002))]\<rparr>"
  by (simp add: transmit_def INTERNAL_ERROR_def new_RestError_def body_def)

text \<open>
  C7. An error that is a \<open>RestError\<close> is answered with its own status code (400 when it
  has none) and its own body, and nothing is logged. Any other error is answered with
  status 500 and the body made of the message
  \<open>Internal error occurred. Tracking number: <ref>\<close> and the code 1002, where \<open><ref>\<close> is
  the hexadecimal text of the eight bytes the entropy source returned; the four lines
  logged hold the reference and the detail of the error. The response does not depend
  on the detail. When the entropy source fails, no response is sent.
\<close>

theorem error_envelope:
  "error_middleware randomBytes (Rest e) =
     Inr (\<lparr>status = (case statusCode e of Number n \<Rightarrow> Number n | _ \<Rightarrow> Number (Finite 400)),
           payload = to_json (body e)\<rparr>, [])
   \<and> (randomBytes 8 = Inr buf \<longrightarrow>
        error_middleware randomBytes (Internal detail) =
          Inr (\<lparr>status = Number (Finite 500),
                payload = Object [(''message'', String (''Internal error occurred. Tracking number: '' @ to_hex buf)),
                                  (''code'', Number (Finite 1002))]\<rparr>,
               [(Error, ''------- error reported''),
                (Error, ''tracking ref: '' @ to_hex buf),
                (Error, detail),
                (Error, ''------- eof'')]))
   \<and> (randomBytes 8 = Inl failure \<longrightarrow>
        error_middleware randomBytes (Internal detail) = Inl failure)
   \<and> map_sum id fst (error_middleware randomBytes (Internal detail)) =
       map_sum id fst (error_middleware randomBytes (Internal detail'))"
proof -
  have rest: "transmit e =
      \<lparr>status = (case statusCode e of Number n \<Rightarrow> Number n | _ \<Rightarrow> Number (Finite 400)),
       payload = to_json (body e)\<rparr>"
    by (cases "statusCode e") (simp_all add: transmit_def)
  have indep: "map_sum id fst (error_middleware randomBytes (Internal detail)) =
       map_sum id fst (error_middleware randomBytes (Internal detail'))"
    by (simp add: error_middleware_def split: sum.split)
  show ?thesis
    using rest indep
    by (simp add: error_middleware_def random_def transmit_INTERNAL_ERROR)
qed

theorem error_envelope_witness:
  "error_middleware (\<lambda>n. Inr (take n ''abcdefghijkl'')) (Internal ''boom'') =
     Inr (\<lparr>status = Number (Finite 500),
           payload = Object [(''message'', String ''Internal error occurred. Tracking number: 6162636465666768''),
                             (''code'', Number (Finite 1002))]\<rparr>,
          [(Error, ''------- error reported''),
           (Error, ''tracking ref: 6162636465666768''),
           (Error, ''boom''),
           (Error, ''------- eof'')])
   \<and> error_middleware (\<lambda>n. Inl EntropyError) (Internal ''boom'') = Inl EntropyError"
  using error_envelope [of "\<lambda>n. Inr (take n ''abcdefghijkl'')" undefined "''abcdefgh''" "''boom''"]
        error_envelope [of "\<lambda>n. Inl EntropyError" undefined undefined "''boom''" EntropyError]
  by (simp add: to_hex_def hex_byte_def hex_digit_def)

section \<open>Properties of the test routes\<close>

lemma test_paths:
  "the (map_of API_V0 ''TEST_1'') = ''/api/v0/test/1''"
  "the (map_of API_V0 ''TEST_2'') = ''/api/v0/test/2''"
  by (simp_all add: API_V0_def prefix_def)

lemma toLowerCase_test_paths:
  "toLowerCase ''/api/v0/test/1'' = ''/api/v0/test/1''"
  "toLowerCase ''/api/v0/test/2'' = ''/api/v0/test/2''"
  "toLowerCase ''/API/v0/Test/1/'' = ''/api/v0/test/1/''"
  by code_simp+

lemma toLowerCase_methods:
  "toLowerCase ''GET'' = ''get''"
  "toLowerCase ''HEAD'' = ''head''"
  by code_simp+

lemma paths_exclusive:
  "path_matches ''/api/v0/test/2'' p \<Longrightarrow> \<not> path_matches ''/api/v0/test/1'' p"
  by (auto simp add: path_matches_def toLowerCase_test_paths)

lemma serve_test_1:
  assumes "reaches ''/api/v0/test/1'' req"
  shows "serve randomBytes staticFiles test_routes n req =
     (post_increment n,
      Inr \<lparr>status = Number (Finite 200),
           payload = Object [(''test'', String ''successful''),
                             (''number'', Number (Finite (of_nat n)))]\<rparr>)"
  using assms
  by (simp add: reaches_def serve_def test_routes_def test_paths test_1_handler_def res_json_def)

lemma serve_test_2:
  assumes "reaches ''/api/v0/test/2'' req"
  shows "serve randomBytes staticFiles test_routes n req =
     (n, Inr \<lparr>status = Number (Finite 400),
              payload = Object [(''message'', String ''Success!''),
                                (''code'', Number (Finite 1002))]\<rparr>)"
proof -
  have other: "\<not> path_matches ''/api/v0/test/1'' (request_path req)"
    using assms by (simp add: reaches_def paths_exclusive)
  show ?thesis
    using assms other
    by (simp add: reaches_def serve_def test_routes_def test_paths test_2_handler_def
        ERROR_CODES_def error_middleware_def transmit_def new_RestError_def body_def)
qed

lemma serve_other:
  assumes "\<not> reaches ''/api/v0/test/1'' req"
  shows "fst (serve randomBytes staticFiles test_routes n req) = n"
proof (cases "body_error req")
  case (Some detail)
  then show ?thesis by (simp add: serve_def)
next
  case None
  with assms have "\<not> (path_matches ''/api/v0/test/1'' (request_path req)
      \<and> handles_method ''get'' (request_method req))"
    by (simp add: reaches_def)
  with None paths_exclusive [of "request_path req"] show ?thesis
    by (auto simp add: serve_def test_routes_def test_paths test_2_handler_def)
qed

lemma serve_all_count:
  "n \<le> 9007199254740992 \<Longrightarrow>
   serve_all randomBytes staticFiles test_routes n reqs
     = min (n + length (filter (reaches ''/api/v0/test/1'') reqs)) 9007199254740992"
proof (induction reqs arbitrary: n)
  case Nil
  then show ?case by simp
next
  case (Cons req reqs)
  show ?case
  proof (cases "reaches ''/api/v0/test/1'' req")
    case True
    have bound: "post_increment n \<le> 9007199254740992"
      using Cons.prems by (simp add: post_increment_def)
    have "serve_all randomBytes staticFiles test_routes n (req # reqs)
        = serve_all randomBytes staticFiles test_routes (post_increment n) reqs"
      by (simp add: serve_test_1 [OF True])
    also have "\<dots> = min (post_increment n + length (filter (reaches ''/api/v0/test/1'') reqs))
        9007199254740992"
      by (rule Cons.IH [OF bound])
    also have "\<dots> = min (n + length (filter (reaches ''/api/v0/test/1'') (req # reqs)))
        9007199254740992"
      using True Cons.prems by (simp add: post_increment_def)
    finally show ?thesis .
  next
    case False
    then show ?thesis
      using Cons.IH [OF Cons.prems] by (simp add: serve_other)
  qed
qed

text \<open>
  The claim C8 as the specification states it fails: the counter also counts the
  requests of method \<open>HEAD\<close> for the path, which Express gives to the \<open>get\<close> route. After
  one such request the first \<open>GET /api/v0/test/1\<close> of the process answers with the
  number 1, not 0.
\<close>

theorem test_routes_head_counterexample:
  "serve no_entropy no_static test_routes
     (serve_all no_entropy no_static test_routes 0 [head_test_1]) get_test_1
   = (2, Inr \<lparr>status = Number (Finite 200),
              payload = Object [(''test'', String ''successful''),
                                (''number'', Number (Finite 1))]\<rparr>)"
  by (simp add: serve_def test_routes_def test_paths test_1_handler_def res_json_def
      head_test_1_def get_test_1_def path_matches_def handles_method_def
      toLowerCase_test_paths toLowerCase_methods post_increment_def)

text \<open>
  C8, as the code has it. Take the requests that the server has been given since the
  process started, in any number and of any kind, and count those that reach the first
  test route: the requests for its path, in any case of the letters and with or without
  a slash at the end, of method \<open>GET\<close> or \<open>HEAD\<close>, that the body parser lets through. Let
  \<open>k\<close> be that count. Then the counter holds \<open>k\<close> (and stays at \<open>2^53\<close> from there on), a
  further request that reaches the first test route is answered with status 200 and
  \<open>{test: "successful", number: k}\<close> and moves the counter on by one, and every other
  request leaves the counter as it is. A request that reaches the second test route is
  always answered with status 400 and \<open>{message: "Success!", code: 1002}\<close>, whatever the
  entropy source and the static files are; nothing else is in the body.
\<close>

theorem test_routes_end_to_end:
  "(reaches ''/api/v0/test/1'' req \<longrightarrow>
      serve randomBytes staticFiles test_routes
        (serve_all randomBytes staticFiles test_routes 0 reqs) req
      = (min (length (filter (reaches ''/api/v0/test/1'') reqs) + 1) 9007199254740992,
         Inr \<lparr>status = Number (Finite 200),
              payload = Object
                [(''test'', String ''successful''),
                 (''number'', Number (Finite (of_nat
                    (min (length (filter (reaches ''/api/v0/test/1'') reqs))
                       9007199254740992))))]\<rparr>))
   \<and> serve_all randomBytes staticFiles test_routes 0 reqs
       = min (length (filter (reaches ''/api/v0/test/1'') reqs)) 9007199254740992
   \<and> (\<not> reaches ''/api/v0/test/1'' req \<longrightarrow>
        fst (serve randomBytes staticFiles test_routes n req) = n)
   \<and> (reaches ''/api/v0/test/2'' req \<longrightarrow>
        serve randomBytes staticFiles test_routes n req
        = (n, Inr \<lparr>status = Number (Finite 400),
                   payload = Object [(''message'', String ''Success!''),
                                     (''code'', Number (Finite 1002))]\<rparr>))"
proof -
  let ?k = "length (filter (reaches ''/api/v0/test/1'') reqs)"
  have counter: "serve_all randomBytes staticFiles test_routes 0 reqs
      = min ?k 9007199254740992"
    using serve_all_count [of 0 randomBytes staticFiles reqs] by simp
  have step: "post_increment (min ?k 9007199254740992) = min (?k + 1) 9007199254740992"
    by (simp add: post_increment_def)
  show ?thesis
    by (simp add: counter step serve_test_1 serve_test_2 serve_other)
qed

theorem test_routes_end_to_end_witness:
  "reaches ''/api/v0/test/1'' get_test_1
   \<and> filter (reaches ''/api/v0/test/1'') [head_test_1, get_test_2, get_test_1_variant]
       = [head_test_1, get_test_1_variant]
   \<and> serve no_entropy no_static test_routes
       (serve_all no_entropy no_static test_routes 0
          [head_test_1, get_test_2, get_test_1_variant]) get_test_1
     = (3, Inr \<lparr>status = Number (Finite 200),
                payload = Object [(''test'', String ''successful''),
                                  (''number'', Number (Finite 2))]\<rparr>)
   \<and> reaches ''/api/v0/test/2'' get_test_2
   \<and> serve no_entropy no_static test_routes 5 get_test_2
     = (5, Inr \<lparr>status = Number (Finite 400),
                payload = Object [(''message'', String ''Success!''),
                                  (''code'', Number (Finite 1002))]\<rparr>)"
proof -
  have first: "reaches ''/api/v0/test/1'' get_test_1"
    by (simp add: reaches_def get_test_1_def path_matches_def handles_method_def
        toLowerCase_test_paths toLowerCase_methods)
  have second: "reaches ''/api/v0/test/2'' get_test_2"
    by (simp add: reaches_def get_test_2_def path_matches_def handles_method_def
        toLowerCase_test_paths toLowerCase_methods)
  have counted: "filter (reaches ''/api/v0/test/1'') [head_test_1, get_test_2, get_test_1_variant]
       = [head_test_1, get_test_1_variant]"
    by (simp add: reaches_def head_test_1_def get_test_2_def get_test_1_variant_def
        path_matches_def handles_method_def toLowerCase_test_paths toLowerCase_methods)
  have counter: "serve no_entropy no_static test_routes
       (serve_all no_entropy no_static test_routes 0
          [head_test_1, get_test_2, get_test_1_variant]) get_test_1
     = (3, Inr \<lparr>status = Number (Finite 200),
                payload = Object [(''test'', String ''successful''),
                                  (''number'', Number (Finite 2))]\<rparr>)"
  proof -
    let ?reqs = "[head_test_1, get_test_2, get_test_1_variant]"
    from test_routes_end_to_end [where req = get_test_1 and randomBytes = no_entropy
        and staticFiles = no_static and reqs = ?reqs] first
    have "serve no_entropy no_static test_routes
        (serve_all no_entropy no_static test_routes 0 ?reqs) get_test_1
      = (min (length (filter (reaches ''/api/v0/test/1'') ?reqs) + 1) 9007199254740992,
         Inr \<lparr>status = Number (Finite 200),
              payload = Object
                [(''test'', String ''successful''),
                 (''number'', Number (Finite (of_nat
                    (min (length (filter (reaches ''/api/v0/test/1'') ?reqs))
                       9007199254740992))))]\<rparr>)"
      by blast
    then show ?thesis
      unfolding counted by (simp del: serve_all.simps)
  qed
  have error: "serve no_entropy no_static test_routes 5 get_test_2
     = (5, Inr \<lparr>status = Number (Finite 400),
                payload = Object [(''message'', String ''Success!''),
                                  (''code'', Number (Finite 1002))]\<rparr>)"
    using test_routes_end_to_end [where req = get_test_2 and randomBytes = no_entropy
        and staticFiles = no_static and n = 5 and reqs = "[]"]
      second
    by blast
  from first counted counter second error show ?thesis
    by (simp only: simp_thms)
qed

section \<open>Properties of route loading\<close>

lemma typeof_string: "typeof v = ''string'' \<Longrightarrow> \<exists>s. v = String s"
  by (cases v) simp_all

lemma typeof_function: "typeof v = ''function'' \<Longrightarrow> \<exists>f. v = Function f"
  by (cases v) simp_all

lemma isRoute_True:
  assumes "isRoute route = Inr True"
  shows "\<exists>ro m p f. get_prop route ''opts'' = Inr ro \<and> get_prop ro ''path'' = Inr (String p)
           \<and> get_prop ro ''method'' = Inr (String m) \<and> get_prop route ''handler'' = Inr (Function f)"
proof -
  from assms obtain ro where ro: "get_prop route ''opts'' = Inr ro"
    by (auto simp add: isRoute_def and_then_def split: if_splits sum.splits)
  from assms ro obtain rp where rp: "get_prop ro ''path'' = Inr rp" "typeof rp = ''string''"
    by (auto simp add: isRoute_def and_then_def split: if_splits sum.splits)
  from assms ro rp obtain rm where rm: "get_prop ro ''method'' = Inr rm" "typeof rm = ''string''"
    by (auto simp add: isRoute_def and_then_def split: if_splits sum.splits)
  from assms ro rp rm obtain rh where rh: "get_prop route ''handler'' = Inr rh" "typeof rh = ''function''"
    by (auto simp add: isRoute_def and_then_def split: if_splits sum.splits)
  from rp(2) rm(2) rh(2) obtain p m f where "rp = String p" "rm = String m" "rh = Function f"
    by (meson typeof_string typeof_function)
  with ro rp rm rh show ?thesis by blast
qed

lemma express_route_appends:
  "express_route srv m p middleware final = Inr srv'
   \<Longrightarrow> \<exists>cbs. srv' = srv\<lparr>stack := stack srv @ [\<lparr>layer_method = m, layer_path = p,
                                                 layer_callbacks = cbs @ [final]\<rparr>]\<rparr>"
  by (auto simp add: express_route_def Let_def split: if_splits)

lemma loadRoute_valid:
  assumes valid: "isRoute route = Inr True"
    and key: "route_key route = Some (m, p)"
    and loaded: "loadRoute srv route = Inr srv'"
  shows "\<exists>cbs. stack srv' = stack srv @ [\<lparr>layer_method = m, layer_path = p, layer_callbacks = cbs\<rparr>]
           \<and> logged srv' = logged srv @
                [(Debug, ''[EXPRESS ROUTE] ['' @ toUpperCase m @ ''] PATH: '' @ [CHR 0x22] @ p @ [CHR 0x22])]"
proof -
  from isRoute_True [OF valid] obtain ro m' p' f where
    g: "get_prop route ''opts'' = Inr ro" "get_prop ro ''path'' = Inr (String p')"
       "get_prop ro ''method'' = Inr (String m')" "get_prop route ''handler'' = Inr (Function f)"
    by blast
  with key have mp: "m' = m" "p' = p"
    by (simp_all add: route_key_def)
  let ?srv1 = "srv\<lparr>logged := logged srv @
      [(Debug, ''[EXPRESS ROUTE] ['' @ toUpperCase m @ ''] PATH: '' @ [CHR 0x22] @ p @ [CHR 0x22])]\<rparr>"
  from loaded valid g mp obtain middleware final where
    "express_route ?srv1 m p middleware final = Inr srv'"
    by (auto simp add: loadRoute_def and_then_def Let_def split: sum.splits if_splits)
  from express_route_appends [OF this] show ?thesis
    by auto
qed

lemma find_append:
  "find P (xs @ ys) = (case find P xs of Some x \<Rightarrow> Some x | None \<Rightarrow> find P ys)"
  by (induction xs) simp_all

lemma toUpperCase_get: "toUpperCase ''get'' = ''GET''"
  by code_simp

lemma dispatch_append:
  "dispatch (srv\<lparr>stack := stack srv @ ls\<rparr>) m p =
     (case dispatch srv m p of Some l \<Rightarrow> Some l
      | None \<Rightarrow> find (\<lambda>l. layer_method l = m \<and> layer_path l = p) ls)"
  by (simp add: dispatch_def find_append)

text \<open>
  C6, as the code has it. \<open>loadRoute\<close> never looks at the routes already registered:
  each of two valid route objects with the same method and path adds its own route at
  the end of the stack and logs its debug line, and no warning is logged. Dispatch then
  gives the request to the route that was in the stack first: a route registered
  earlier still, or else the first of the two.
\<close>

theorem duplicate_routes_both_kept:
  assumes "isRoute r1 = Inr True" and "isRoute r2 = Inr True"
    and "route_key r1 = Some (m, p)" and "route_key r2 = Some (m, p)"
    and "loadRoute srv r1 = Inr s1" and "loadRoute s1 r2 = Inr s2"
  shows "\<exists>c1 c2.
      stack s1 = stack srv @ [\<lparr>layer_method = m, layer_path = p, layer_callbacks = c1\<rparr>]
    \<and> stack s2 = stack srv @ [\<lparr>layer_method = m, layer_path = p, layer_callbacks = c1\<rparr>,
                              \<lparr>layer_method = m, layer_path = p, layer_callbacks = c2\<rparr>]
    \<and> logged s2 = logged srv @
        [(Debug, ''[EXPRESS ROUTE] ['' @ toUpperCase m @ ''] PATH: '' @ [CHR 0x22] @ p @ [CHR 0x22]),
         (Debug, ''[EXPRESS ROUTE] ['' @ toUpperCase m @ ''] PATH: '' @ [CHR 0x22] @ p @ [CHR 0x22])]
    \<and> dispatch s2 m p =
        (case dispatch srv m p of Some l \<Rightarrow> Some l
         | None \<Rightarrow> Some \<lparr>layer_method = m, layer_path = p, layer_callbacks = c1\<rparr>)"
proof -
  from loadRoute_valid [OF assms(1,3,5)] obtain c1 where
    s1: "stack s1 = stack srv @ [\<lparr>layer_method = m, layer_path = p, layer_callbacks = c1\<rparr>]"
        "logged s1 = logged srv @
          [(Debug, ''[EXPRESS ROUTE] ['' @ toUpperCase m @ ''] PATH: '' @ [CHR 0x22] @ p @ [CHR 0x22])]"
    by blast
  from loadRoute_valid [OF assms(2,4,6)] obtain c2 where
    s2: "stack s2 = stack s1 @ [\<lparr>layer_method = m, layer_path = p, layer_callbacks = c2\<rparr>]"
        "logged s2 = logged s1 @
          [(Debug, ''[EXPRESS ROUTE] ['' @ toUpperCase m @ ''] PATH: '' @ [CHR 0x22] @ p @ [CHR 0x22])]"
    by blast
  have "dispatch s2 m p =
        (case dispatch srv m p of Some l \<Rightarrow> Some l
         | None \<Rightarrow> Some \<lparr>layer_method = m, layer_path = p, layer_callbacks = c1\<rparr>)"
    using s1(1) s2(1) by (simp add: dispatch_def find_append split: option.split)
  with s1 s2 show ?thesis by simp
qed

theorem duplicate_routes_both_kept_witness:
  "isRoute first_route = Inr True \<and> isRoute second_route = Inr True
   \<and> route_key first_route = Some (''get'', ''/x'')
   \<and> route_key second_route = Some (''get'', ''/x'')
   \<and> loadRoute new_server first_route =
       Inr \<lparr>stack = [\<lparr>layer_method = ''get'', layer_path = ''/x'',
                      layer_callbacks = [Plain (Function 1)]\<rparr>],
            logged = [(Debug, ''[EXPRESS ROUTE] [GET] PATH: '' @ [CHR 0x22] @ ''/x'' @ [CHR 0x22])]\<rparr>
   \<and> dispatch \<lparr>stack = [\<lparr>layer_method = ''get'', layer_path = ''/x'',
                           layer_callbacks = [Plain (Function 1)]\<rparr>,
                          \<lparr>layer_method = ''get'', layer_path = ''/x'',
                           layer_callbacks = [Plain (Function 2)]\<rparr>],
                 logged = [(Debug, ''[EXPRESS ROUTE] [GET] PATH: '' @ [CHR 0x22] @ ''/x'' @ [CHR 0x22]),
                           (Debug, ''[EXPRESS ROUTE] [GET] PATH: '' @ [CHR 0x22] @ ''/x'' @ [CHR 0x22])]\<rparr>
        ''get'' ''/x''
       = Some \<lparr>layer_method = ''get'', layer_path = ''/x'', layer_callbacks = [Plain (Function 1)]\<rparr>"
proof -
  let ?l1 = "\<lparr>layer_method = ''get'', layer_path = ''/x'', layer_callbacks = [Plain (Function 1)]\<rparr>"
  let ?l2 = "\<lparr>layer_method = ''get'', layer_path = ''/x'', layer_callbacks = [Plain (Function 2)]\<rparr>"
  let ?d = "(Debug, ''[EXPRESS ROUTE] [GET] PATH: '' @ [CHR 0x22] @ ''/x'' @ [CHR 0x22])"
  have v1: "isRoute first_route = Inr True"
    by (simp add: isRoute_def first_route_def and_then_def)
  have v2: "isRoute second_route = Inr True"
    by (simp add: isRoute_def second_route_def and_then_def)
  have k1: "route_key first_route = Some (''get'', ''/x'')"
    by (simp add: route_key_def first_route_def)
  have k2: "route_key second_route = Some (''get'', ''/x'')"
    by (simp add: route_key_def second_route_def)
  have l1: "loadRoute new_server first_route = Inr \<lparr>stack = [?l1], logged = [?d]\<rparr>"
    by (simp add: loadRoute_def isRoute_def first_route_def and_then_def new_server_def
        toUpperCase_get spread_def express_route_def)
  have l2: "loadRoute \<lparr>stack = [?l1], logged = [?d]\<rparr> second_route
              = Inr \<lparr>stack = [?l1, ?l2], logged = [?d, ?d]\<rparr>"
    by (simp add: loadRoute_def isRoute_def second_route_def and_then_def
        toUpperCase_get spread_def express_route_def)
  from duplicate_routes_both_kept [OF v1 v2 k1 k2 l1 l2] v1 v2 k1 k2 l1
  show ?thesis
    by (auto simp add: new_server_def dispatch_def)
qed

text \<open>
  The claim C6 as the specification states it fails: loading a module of two route
  objects with the same method and path leaves two routes in the stack, and the log
  holds the two debug lines and no warning.
\<close>

theorem duplicate_routes_counterexample:
  "loadFile new_server ''routes.js'' (Inr (Array [first_route, second_route])) =
     Inr \<lparr>stack = [\<lparr>layer_method = ''get'', layer_path = ''/x'',
                    layer_callbacks = [Plain (Function 1)]\<rparr>,
                   \<lparr>layer_method = ''get'', layer_path = ''/x'',
                    layer_callbacks = [Plain (Function 2)]\<rparr>],
          logged = [(Debug, ''[EXPRESS ROUTE] [GET] PATH: '' @ [CHR 0x22] @ ''/x'' @ [CHR 0x22]),
                    (Debug, ''[EXPRESS ROUTE] [GET] PATH: '' @ [CHR 0x22] @ ''/x'' @ [CHR 0x22])]\<rparr>"
  by (simp add: loadFile_def loadRoute_def isRoute_def first_route_def second_route_def
      and_then_def new_server_def toUpperCase_get spread_def express_route_def)

section \<open>Properties of the guard chain\<close>

lemma guard_calls_append: "guard_calls (xs @ ys) = guard_calls xs @ guard_calls ys"
  by (induction xs rule: guard_calls.induct) simp_all

lemma guard_calls_sends: "guard_calls (sends f as) = []"
  by (induction f as rule: sends.induct) simp_all

lemma next_call_duplicate:
  "currentIndex s < length (chain_guards c) \<Longrightarrow> previous s = Some (chain_guards c ! currentIndex s)
   \<Longrightarrow> next_call c s = call_handler c (s\<lparr>currentIndex := currentIndex s + 1\<rparr>)"
  by (simp add: next_call.simps Let_def)

lemma next_call_exhausted:
  "length (chain_guards c) \<le> currentIndex s
   \<Longrightarrow> next_call c s = call_handler c (s\<lparr>currentIndex := currentIndex s + 1\<rparr>)"
  by (simp add: next_call.simps Let_def)




lemma sends_no_calls: "HandlerCalled \<notin> set (sends f as)"
  by (induction f as rule: sends.induct) simp_all

lemma run_guard_no_proceed:
  "Proceed \<notin> set as \<Longrightarrow> run_guard c g as s = s\<lparr>trace := trace s @ sends g as\<rparr>"
proof (induction as arbitrary: s)
  case Nil
  show ?case by simp
next
  case (Cons a as)
  then show ?case by (cases a) simp_all
qed

lemma settled_sends: "settled c s \<Longrightarrow> settled c (s\<lparr>trace := trace s @ sends g as\<rparr>)"
  by (simp add: settled_def guard_calls_append guard_calls_sends sends_no_calls)

lemma linear_chain:
  "\<forall>g \<in> set (chain_guards c). proceeds_once c g \<Longrightarrow> in_order c s
     \<Longrightarrow> \<forall>g \<in> set (guard_calls (trace s)). Proceed \<in> set (code c g)
     \<Longrightarrow> settled c (next_call c s)"
  "\<forall>g \<in> set (chain_guards c). proceeds_once c g \<Longrightarrow> in_order c s
     \<Longrightarrow> count_list as Proceed \<le> 1 \<Longrightarrow> \<exists>before. code c g = before @ as
     \<Longrightarrow> guard_calls (trace s) \<noteq> [] \<Longrightarrow> last (guard_calls (trace s)) = g
     \<Longrightarrow> \<forall>g' \<in> set (butlast (guard_calls (trace s))). Proceed \<in> set (code c g')
     \<Longrightarrow> settled c (run_guard c g as s)"
proof (induction c s and c g as s rule: next_call_run_guard.induct)
  case (1 c s)
  let ?i = "currentIndex s"
  let ?g = "chain_guards c ! ?i"
  show ?case
  proof (cases "?i < length (chain_guards c) \<and> previous s \<noteq> Some ?g")
    case True
    let ?s2 = "s\<lparr>currentIndex := ?i + 1, previous := Some ?g,
                 trace := trace (s\<lparr>currentIndex := ?i + 1\<rparr>) @ [GuardCalled ?g]\<rparr>"
    have step: "next_call c s = run_guard c ?g (code c ?g) ?s2"
      using True by (simp add: next_call.simps [of c s] Let_def)
    have calls: "guard_calls (trace ?s2) = take (Suc ?i) (chain_guards c)"
      using True "1.prems"(2)
      by (simp add: in_order_def guard_calls_append take_Suc_conv_app_nth)
    have ord: "in_order c ?s2"
      using True "1.prems"(2) calls by (simp add: in_order_def)
    have once: "count_list (code c ?g) Proceed \<le> 1"
      using True "1.prems"(1) by (simp add: proceeds_once_def)
    have nonempty: "guard_calls (trace ?s2) \<noteq> []"
      using True calls by auto
    have lst: "last (guard_calls (trace ?s2)) = ?g"
      by (simp add: guard_calls_append)
    have before: "\<forall>g' \<in> set (butlast (guard_calls (trace ?s2))). Proceed \<in> set (code c g')"
      using "1.prems"(3) by (simp add: guard_calls_append)
    have "settled c (run_guard c ?g (code c ?g) ?s2)"
      using "1.IH" [OF refl refl _ "1.prems"(1) ord once _ nonempty lst before] True
      by simp
    then show ?thesis by (simp add: step)
  next
    case False
    then have step: "next_call c s = call_handler c (s\<lparr>currentIndex := ?i + 1\<rparr>)"
      by (auto simp add: next_call.simps [of c s] Let_def)
    have "\<exists>k. guard_calls (trace s) = take k (chain_guards c)"
      using "1.prems"(2) by (auto simp add: in_order_def)
    moreover have "\<forall>g \<in> set (butlast (guard_calls (trace s))). Proceed \<in> set (code c g)"
      using "1.prems"(3) by (meson in_set_butlastD)
    ultimately show ?thesis
      using "1.prems"(3)
      by (simp add: step settled_def call_handler_def guard_calls_append guard_calls_sends)
  qed
next
  case (2 c g s)
  then show ?case
    by (auto simp add: settled_def in_order_def)
next
  case (3 c g r as s)
  have ord: "in_order c (s\<lparr>trace := trace s @ [Sent g r]\<rparr>)"
    using "3.prems"(2) by (simp add: in_order_def guard_calls_append)
  have once: "count_list as Proceed \<le> 1"
    using "3.prems"(3) by simp
  have suffix: "\<exists>before. code c g = before @ as"
  proof -
    from "3.prems"(4) obtain before where "code c g = before @ Send r # as" by blast
    then have "code c g = (before @ [Send r]) @ as" by simp
    then show ?thesis by blast
  qed
  show ?case
    using "3.IH" [OF "3.prems"(1) ord once suffix] "3.prems"(5,6,7)
    by (simp add: guard_calls_append)
next
  case (4 c g as s)
  have none: "Proceed \<notin> set as"
    using "4.prems"(3) by (auto simp add: count_list_0_iff split: if_splits)
  have mine: "Proceed \<in> set (code c g)"
    using "4.prems"(4) by auto
  have all: "\<forall>g' \<in> set (guard_calls (trace s)). Proceed \<in> set (code c g')"
  proof
    fix g' assume g': "g' \<in> set (guard_calls (trace s))"
    from "4.prems"(5) have "guard_calls (trace s) = butlast (guard_calls (trace s)) @ [g]"
      using "4.prems"(6) by (metis append_butlast_last_id)
    then have "set (guard_calls (trace s)) = set (butlast (guard_calls (trace s))) \<union> {g}"
      by (metis Un_insert_right list.simps(15) set_append sup_bot.right_neutral list.set(1))
    with g' "4.prems"(7) mine show "Proceed \<in> set (code c g')" by auto
  qed
  have "settled c (next_call c s)"
    using "4.IH"(1) [OF "4.prems"(1,2) all] .
  then show ?case
    by (simp add: run_guard_no_proceed [OF none] settled_sends)
qed




lemma run_chain_settled:
  "\<forall>g \<in> set (chain_guards c). proceeds_once c g \<Longrightarrow> settled c (run_chain c)"
  unfolding run_chain_def
  by (rule linear_chain(1)) (simp_all add: in_order_def)

lemma run_guard_before_proceed:
  "Proceed \<notin> set before \<Longrightarrow>
     run_guard c g (before @ as) s = run_guard c g as (s\<lparr>trace := trace s @ sends g before\<rparr>)"
proof (induction before arbitrary: s)
  case Nil
  show ?case by simp
next
  case (Cons a before)
  then show ?case by (cases a) simp_all
qed

lemma proceed_once_split:
  assumes "count_list as Proceed \<le> 1" "Proceed \<in> set as"
  shows "as = takeWhile (\<lambda>a. a \<noteq> Proceed) as @ Proceed # tl (dropWhile (\<lambda>a. a \<noteq> Proceed) as)"
    and "Proceed \<notin> set (takeWhile (\<lambda>a. a \<noteq> Proceed) as)"
    and "Proceed \<notin> set (tl (dropWhile (\<lambda>a. a \<noteq> Proceed) as))"
proof -
  let ?pre = "takeWhile (\<lambda>a. a \<noteq> Proceed) as"
  let ?rest = "dropWhile (\<lambda>a. a \<noteq> Proceed) as"
  from assms(2) have "?rest \<noteq> []" by simp
  moreover have "hd ?rest = Proceed"
    using assms(2) hd_dropWhile [of "\<lambda>a. a \<noteq> Proceed" as] by auto
  ultimately have rest: "?rest = Proceed # tl ?rest"
    by (cases ?rest) simp_all
  have whole: "as = ?pre @ ?rest" by simp
  with rest show split: "as = ?pre @ Proceed # tl ?rest" by simp
  show pre: "Proceed \<notin> set ?pre"
    by (auto dest: set_takeWhileD)
  have "count_list as Proceed = count_list ?pre Proceed + count_list (Proceed # tl ?rest) Proceed"
    using split by (metis count_list_append)
  with assms(1) have "count_list (tl ?rest) Proceed = 0" by simp
  then show "Proceed \<notin> set (tl ?rest)"
    by (simp add: count_list_0_iff)
qed

lemma next_call_expected:
  assumes once: "\<forall>g \<in> set (chain_guards c). proceeds_once c g"
  shows "drop (currentIndex s) (chain_guards c) = gs
     \<Longrightarrow> trace (next_call c s) = trace s @ expected_trace c (previous s) gs"
proof (induction gs arbitrary: s)
  case Nil
  then have "length (chain_guards c) \<le> currentIndex s" by simp
  then show ?case
    by (simp add: next_call_exhausted call_handler_def)
next
  case (Cons g gs)
  let ?i = "currentIndex s"
  from Cons.prems have i: "?i < length (chain_guards c)"
    by (metis drop_eq_Nil2 list.distinct(1) not_le)
  with Cons.prems have g: "chain_guards c ! ?i = g" and rest: "drop (Suc ?i) (chain_guards c) = gs"
    by (simp_all add: Cons_nth_drop_Suc [symmetric])
  show ?case
  proof (cases "previous s = Some g")
    case True
    with i g show ?thesis
      by (simp add: next_call_duplicate call_handler_def)
  next
    case False
    let ?s2 = "s\<lparr>currentIndex := ?i + 1, previous := Some g,
                 trace := trace (s\<lparr>currentIndex := ?i + 1\<rparr>) @ [GuardCalled g]\<rparr>"
    have step: "next_call c s = run_guard c g (code c g) ?s2"
      using i g False by (simp add: next_call.simps [of c s] Let_def)
    show ?thesis
    proof (cases "Proceed \<in> set (code c g)")
      case no: False
      with False show ?thesis
        by (simp add: step run_guard_no_proceed)
    next
      case yes: True
      let ?pre = "takeWhile (\<lambda>a. a \<noteq> Proceed) (code c g)"
      let ?post = "tl (dropWhile (\<lambda>a. a \<noteq> Proceed) (code c g))"
      from i g have "g \<in> set (chain_guards c)" by auto
      with once have one: "count_list (code c g) Proceed \<le> 1"
        by (simp add: proceeds_once_def)
      note parts = proceed_once_split [OF one yes]
      let ?s3 = "?s2\<lparr>trace := trace ?s2 @ sends g ?pre\<rparr>"
      have "run_guard c g (code c g) ?s2 = run_guard c g (?pre @ Proceed # ?post) ?s2"
        using parts(1) by simp
      also have "\<dots> = run_guard c g (Proceed # ?post) ?s3"
        by (rule run_guard_before_proceed [OF parts(2)])
      also have "\<dots> = run_guard c g ?post (next_call c ?s3)"
        by simp
      also have "\<dots> = (next_call c ?s3)\<lparr>trace := trace (next_call c ?s3) @ sends g ?post\<rparr>"
        by (rule run_guard_no_proceed [OF parts(3)])
      finally have whole: "next_call c s
          = (next_call c ?s3)\<lparr>trace := trace (next_call c ?s3) @ sends g ?post\<rparr>"
        by (simp only: step)
      have "trace (next_call c ?s3) = trace ?s3 @ expected_trace c (previous ?s3) gs"
        by (rule Cons.IH) (simp add: rest)
      with False yes show ?thesis
        by (simp add: whole)
    qed
  qed
qed

lemma run_chain_expected:
  "\<forall>g \<in> set (chain_guards c). proceeds_once c g
     \<Longrightarrow> trace (run_chain c) = expected_trace c None (chain_guards c)"
  using next_call_expected [of c "\<lparr>currentIndex = 0, previous = None, trace = []\<rparr>" "chain_guards c"]
  by (simp add: run_chain_def)











text \<open>
  C5, as the code has it. In a route whose guards each call \<open>next\<close> at most once, the
  trace of a request is the one the transition rule gives, starting at index 0 with no
  guard called before. The guards called are the first \<open>k\<close> guards of the route in the
  order of their declaration, each of them but the last has called \<open>next\<close>, and when a
  called guard never calls \<open>next\<close> the terminal handler is not called. Whatever the
  guards do, a call of \<open>next\<close> with the index at or past the number of guards calls the
  terminal handler.
\<close>

theorem guard_chain_order:
  assumes "\<forall>g \<in> set (chain_guards c). proceeds_once c g"
  shows "trace (run_chain c) = expected_trace c None (chain_guards c)
    \<and> (\<exists>k. guard_calls (trace (run_chain c)) = take k (chain_guards c))
    \<and> (\<forall>g \<in> set (butlast (guard_calls (trace (run_chain c)))). Proceed \<in> set (code c g))
    \<and> ((\<exists>g \<in> set (guard_calls (trace (run_chain c))). Proceed \<notin> set (code c g))
         \<longrightarrow> HandlerCalled \<notin> set (trace (run_chain c)))
    \<and> (length (chain_guards c) \<le> currentIndex s
         \<longrightarrow> next_call c s = call_handler c (s\<lparr>currentIndex := currentIndex s + 1\<rparr>))"
  using run_chain_settled [OF assms] run_chain_expected [OF assms]
  by (auto simp add: settled_def next_call_exhausted)

theorem guard_chain_order_witness:
  "proceeds_once chain_once_then_reject 1 \<and> proceeds_once chain_once_then_reject 2
   \<and> trace (run_chain chain_once_then_reject)
       = [GuardCalled 1, GuardCalled 2, Sent 2 rejection]
   \<and> HandlerCalled \<notin> set (trace (run_chain chain_once_then_reject))"
  using guard_chain_order [of chain_once_then_reject]
  by (simp add: chain_once_then_reject_def proceeds_once_def run_chain_def next_call.simps)

text \<open>
  The claim C5 as the specification states it fails when a guard calls \<open>next\<close> twice:
  with the guards \<open>[G1, G2]\<close>, G2 writes its rejection and never calls \<open>next\<close>, and the
  second call of \<open>next\<close> by G1 finds the index past the guards and calls the handler.
\<close>

theorem guard_chain_rejection_counterexample:
  "trace (run_chain chain_twice_then_reject)
     = [GuardCalled 1, GuardCalled 2, Sent 2 rejection, HandlerCalled, Sent 0 success]"
  by (simp add: chain_twice_then_reject_def run_chain_def next_call.simps call_handler_def)

section \<open>Properties of the encodings\<close>

lemma sextet_bound_1: fixes a :: nat assumes "a < 256" shows "a div 4 < 64"
  using assms by linarith

lemma sextet_bound_2: fixes a b :: nat assumes "b < 256" shows "a mod 4 * 16 + b div 16 < 64"
proof -
  have "a mod 4 < 4" by simp
  moreover have "b div 16 < 16" using assms by linarith
  ultimately show ?thesis by linarith
qed

lemma sextet_bound_3: fixes b c :: nat assumes "c < 256" shows "b mod 16 * 4 + c div 64 < 64"
proof -
  have "b mod 16 < 16" by simp
  moreover have "c div 64 < 4" using assms by linarith
  ultimately show ?thesis by linarith
qed

lemma sextet_bound_4: fixes a b :: nat shows "a mod 4 * 16 < 64" "b mod 16 * 4 < 64"
proof -
  have "a mod 4 < 4" by simp
  then show "a mod 4 * 16 < 64" by linarith
  have "b mod 16 < 16" by simp
  then show "b mod 16 * 4 < 64" by linarith
qed

lemma regroup_1: fixes a b :: nat assumes "b < 256"
  shows "a div 4 * 4 + (a mod 4 * 16 + b div 16) div 16 = a"
proof -
  have "b div 16 < 16" using assms by linarith
  then have "(a mod 4 * 16 + b div 16) div 16 = a mod 4" by simp
  then show ?thesis by simp
qed

lemma regroup_2: fixes a b c :: nat assumes "b < 256" "c < 256"
  shows "(a mod 4 * 16 + b div 16) mod 16 * 16 + (b mod 16 * 4 + c div 64) div 4 = b"
proof -
  have "b div 16 < 16" using assms by linarith
  then have x: "(a mod 4 * 16 + b div 16) mod 16 = b div 16" by simp
  have "c div 64 < 4" using assms by linarith
  then have y: "(b mod 16 * 4 + c div 64) div 4 = b mod 16" by simp
  have "b div 16 * 16 + b mod 16 = b" by simp
  then show ?thesis by (simp only: x y)
qed

lemma regroup_3: fixes b c :: nat assumes "c < 256"
  shows "(b mod 16 * 4 + c div 64) mod 4 * 64 + c mod 64 = c"
proof -
  have "c div 64 < 4" using assms by linarith
  then have x: "(b mod 16 * 4 + c div 64) mod 4 = c div 64" by simp
  have "c div 64 * 64 + c mod 64 = c" by simp
  then show ?thesis by (simp only: x)
qed

lemma regroup_4: fixes a b :: nat assumes "b < 256"
  shows "(a mod 4 * 16 + b div 16) mod 16 * 16 + (b mod 16 * 4) div 4 = b"
proof -
  have "b div 16 < 16" using assms by linarith
  then have x: "(a mod 4 * 16 + b div 16) mod 16 = b div 16" by simp
  have y: "(b mod 16 * 4) div 4 = b mod 16" by simp
  have "b div 16 * 16 + b mod 16 = b" by simp
  then show ?thesis by (simp only: x y)
qed

lemma regroup_5: fixes a :: nat shows "a div 4 * 4 + (a mod 4 * 16) div 16 = a"
proof -
  have "(a mod 4 * 16) div 16 = a mod 4" by simp
  then show ?thesis by simp
qed

lemma sextets_less: "x \<in> set (sextets_of buf) \<Longrightarrow> x < 64"
proof (induction buf arbitrary: x rule: sextets_of.induct)
  case (1 a b c rest)
  from "1.prems" consider "x = of_char a div 4"
    | "x = of_char a mod 4 * 16 + of_char b div 16"
    | "x = of_char b mod 16 * 4 + of_char c div 64"
    | "x = of_char c mod 64"
    | "x \<in> set (sextets_of rest)"
    by auto
  then show ?case
  proof cases
    case 1 then show ?thesis by (simp add: sextet_bound_1)
  next
    case 2 then show ?thesis by (simp add: sextet_bound_2)
  next
    case 3 then show ?thesis by (simp add: sextet_bound_3)
  next
    case 4 then show ?thesis by simp
  next
    case 5 then show ?thesis by (rule "1.IH")
  qed
next
  case (2 a b)
  from "2.prems" consider "x = of_char a div 4"
    | "x = of_char a mod 4 * 16 + of_char b div 16"
    | "x = of_char b mod 16 * 4"
    by auto
  then show ?case
  proof cases
    case 1 then show ?thesis by (simp add: sextet_bound_1)
  next
    case 2 then show ?thesis by (simp add: sextet_bound_2)
  next
    case 3 then show ?thesis by (simp add: sextet_bound_4)
  qed
next
  case (3 a)
  from "3.prems" consider "x = of_char a div 4" | "x = of_char a mod 4 * 16"
    by auto
  then show ?case
  proof cases
    case 1 then show ?thesis by (simp add: sextet_bound_1)
  next
    case 2 then show ?thesis by (simp add: sextet_bound_4)
  qed
next
  case 4
  then show ?case by simp
qed

lemma bytes_of_sextets: "bytes_of (sextets_of buf) = buf"
proof (induction buf rule: sextets_of.induct)
  case (1 a b c rest)
  have x: "(of_char a :: nat) div 4 * 4 + (of_char a mod 4 * 16 + of_char b div 16) div 16 = of_char a"
    by (rule regroup_1) simp
  have y: "(of_char a mod 4 * 16 + (of_char b :: nat) div 16) mod 16 * 16
             + (of_char b mod 16 * 4 + of_char c div 64) div 4 = of_char b"
    by (rule regroup_2) simp_all
  have z: "((of_char b :: nat) mod 16 * 4 + of_char c div 64) mod 4 * 64 + of_char c mod 64 = of_char c"
    by (rule regroup_3) simp
  show ?case
    using 1 by (simp only: sextets_of.simps append_Cons append_Nil bytes_of.simps x y z
        char_of_char)
next
  case (2 a b)
  have x: "(of_char a :: nat) div 4 * 4 + (of_char a mod 4 * 16 + of_char b div 16) div 16 = of_char a"
    by (rule regroup_1) simp
  have y: "(of_char a mod 4 * 16 + (of_char b :: nat) div 16) mod 16 * 16
             + (of_char b mod 16 * 4) div 4 = of_char b"
    by (rule regroup_4) simp
  show ?case
    by (simp only: sextets_of.simps bytes_of.simps x y char_of_char)
next
  case (3 a)
  have x: "(of_char a :: nat) div 4 * 4 + (of_char a mod 4 * 16) div 16 = of_char a"
    by (rule regroup_5)
  show ?case
    by (simp only: sextets_of.simps bytes_of.simps x char_of_char)
next
  case 4
  show ?case by simp
qed

lemma alphabet_distinct: "distinct base64_alphabet"
  by (simp add: base64_alphabet_def)

lemma alphabet_length: "length base64_alphabet = 64"
  by (simp add: base64_alphabet_def)

lemma alphabet_excludes:
  "CHR ''-'' \<notin> set base64_alphabet" "CHR ''_'' \<notin> set base64_alphabet"
  "CHR ''='' \<notin> set base64_alphabet" "CHR ''.'' \<notin> set base64_alphabet"
  by (simp_all add: base64_alphabet_def)

lemma takeWhile_index:
  "distinct xs \<Longrightarrow> n < length xs \<Longrightarrow> length (takeWhile (\<lambda>x. x \<noteq> xs ! n) xs) = n"
proof (induction xs arbitrary: n)
  case Nil
  then show ?case by simp
next
  case (Cons a xs)
  then show ?case by (cases n) auto
qed

lemma base64_char_in: "n < 64 \<Longrightarrow> base64_char n \<in> set base64_alphabet"
  by (simp add: base64_char_def alphabet_length)

lemma unbase64_base64_char: "n < 64 \<Longrightarrow> unbase64 (base64_char n) = Some n"
proof -
  assume n: "n < 64"
  then have mem: "base64_char n \<in> set base64_alphabet" by (rule base64_char_in)
  with alphabet_excludes have ne: "base64_char n \<noteq> CHR ''-''" "base64_char n \<noteq> CHR ''_''"
    by auto
  have "length (takeWhile (\<lambda>x. x \<noteq> base64_alphabet ! n) base64_alphabet) = n"
    using n by (intro takeWhile_index alphabet_distinct) (simp add: alphabet_length)
  with n mem ne show ?thesis
    by (simp add: unbase64_def base64_char_def)
qed

lemma map_filter_unbase64:
  "\<forall>x \<in> set xs. x < 64 \<Longrightarrow> List.map_filter unbase64 (map base64_char xs) = xs"
  by (induction xs) (simp_all add: unbase64_base64_char)

lemma base64_chars:
  "\<forall>x \<in> set xs. x < 64 \<Longrightarrow> c \<in> set (map base64_char xs) \<Longrightarrow> c \<in> set base64_alphabet"
  by (auto simp add: base64_char_in)

lemma takeWhile_padding:
  "takeWhile (\<lambda>c. c \<noteq> CHR ''='') (replicate k (CHR ''='')) = []"
  by (cases k) simp_all

lemma base64_decode_encode: "base64_decode (base64_encode buf) = buf"
proof -
  let ?body = "map base64_char (sextets_of buf)"
  let ?pad = "replicate ((3 - length buf mod 3) mod 3) (CHR ''='')"
  have lt: "\<forall>x \<in> set (sextets_of buf). x < 64"
    by (simp add: sextets_less)
  have body: "c \<noteq> CHR ''=''" if "c \<in> set ?body" for c
    using base64_chars [OF lt that] alphabet_excludes(3) by blast
  have "takeWhile (\<lambda>c. c \<noteq> CHR ''='') (?body @ ?pad)
          = ?body @ takeWhile (\<lambda>c. c \<noteq> CHR ''='') ?pad"
    by (rule takeWhile_append2) (rule body)
  then have "takeWhile (\<lambda>c. c \<noteq> CHR ''='') (base64_encode buf) = ?body"
    by (simp only: base64_encode_def takeWhile_padding append_Nil2)
  then show ?thesis
    by (simp add: base64_decode_def map_filter_unbase64 [OF lt] bytes_of_sextets)
qed

lemma base64_encode_no_dot: "CHR ''.'' \<notin> set (base64_encode buf)"
proof -
  have lt: "\<forall>x \<in> set (sextets_of buf). x < 64"
    by (simp add: sextets_less)
  show ?thesis
    using base64_chars [OF lt] alphabet_excludes(4)
    by (auto simp add: base64_encode_def)
qed

lemma utf8_encode_ascii: "\<forall>c \<in> set s. (of_char c :: nat) < 128 \<Longrightarrow> utf8_encode s = s"
  by (induction s) (simp_all add: utf8_encode_def)

lemma ascii_decode_ascii: "\<forall>c \<in> set s. (of_char c :: nat) < 128 \<Longrightarrow> ascii_decode s = s"
  by (induction s) (simp_all add: ascii_decode_def)

lemma decodeBase64_encodeBase64:
  "\<forall>c \<in> set s. (of_char c :: nat) < 128 \<Longrightarrow> decodeBase64 (encodeBase64 s) = s"
  by (simp add: decodeBase64_def encodeBase64_def base64_decode_encode utf8_encode_ascii
      ascii_decode_ascii)

lemma encodeBase64_no_dot: "CHR ''.'' \<notin> set (encodeBase64 s)"
  by (simp add: encodeBase64_def base64_encode_no_dot)

section \<open>Properties of the conversion between numbers and text\<close>

lemma is_digit_10: "is_digit 10 c \<longleftrightarrow> 48 \<le> (of_char c :: nat) \<and> (of_char c :: nat) \<le> 57"
  by (auto simp add: is_digit_def digit_value_def Let_def)

lemma digit_value_10: "is_digit 10 c \<Longrightarrow> digit_value c = Some (of_char c - 48)"
  by (simp add: is_digit_10 digit_value_def Let_def)

lemma digit_char: "d < 10 \<Longrightarrow> (of_char (char_of (48 + d :: nat)) :: nat) = 48 + d"
  by simp

lemma digits_of_digits: "c \<in> set (digits_of n) \<Longrightarrow> is_digit 10 c"
proof (induction n arbitrary: c rule: digits_of.induct)
  case (1 n)
  show ?case
  proof (cases "n < 10")
    case True
    with "1.prems" show ?thesis
      by (simp add: digits_of.simps [of n] is_digit_10)
  next
    case False
    have "n mod 10 < 10" by simp
    then have "(of_char (char_of (48 + n mod 10)) :: nat) = 48 + n mod 10"
      by (rule digit_char)
    with False "1.prems" "1.IH" show ?thesis
      by (auto simp add: digits_of.simps [of n] is_digit_10 simp del: of_char_of)
  qed
qed

lemma digits_of_nonempty: "digits_of n \<noteq> []"
  by (simp add: digits_of.simps [of n])

lemma digits_value_snoc:
  "digits_value r (ds @ [c]) = digits_value r ds * r + (case digit_value c of Some d \<Rightarrow> d | None \<Rightarrow> 0)"
  by (simp add: digits_value_def)

lemma digits_value_digits_of: "digits_value 10 (digits_of n) = n"
proof (induction n rule: digits_of.induct)
  case (1 n)
  show ?case
  proof (cases "n < 10")
    case True
    then show ?thesis
      by (simp add: digits_of.simps [of n] digits_value_def digit_value_def)
  next
    case False
    have "n mod 10 < 10" by simp
    then have c: "(of_char (char_of (48 + n mod 10)) :: nat) = 48 + n mod 10"
      by (rule digit_char)
    have "digit_value (char_of (48 + n mod 10)) = Some (n mod 10)"
      unfolding digit_value_def Let_def c by simp
    with False "1.IH" show ?thesis
      by (simp add: digits_of.simps [of n] digits_value_snoc)
  qed
qed

lemma digit_not_space: "is_digit 10 c \<Longrightarrow> \<not> str_white_space c"
  by (auto simp add: is_digit_10 str_white_space_def)

lemma minus_not_space: "\<not> str_white_space (CHR ''-'')"
  by (simp add: str_white_space_def)

lemma digit_not_symbol:
  assumes "is_digit 10 c"
  shows "c \<noteq> CHR ''.''" "c \<noteq> CHR ''+''" "c \<noteq> CHR ''-''" "c \<noteq> CHR ''I''"
    "c \<noteq> CHR ''x''" "c \<noteq> CHR ''X''" "c \<noteq> CHR ''o''" "c \<noteq> CHR ''O''"
    "c \<noteq> CHR ''b''" "c \<noteq> CHR ''B''"
  using assms by (auto simp add: is_digit_10)

lemma digit_ascii: "is_digit 10 c \<Longrightarrow> (of_char c :: nat) < 128"
  by (simp add: is_digit_10)

lemma trim_id:
  assumes "s \<noteq> []" "\<not> str_white_space (hd s)" "\<not> str_white_space (last s)"
  shows "trim s = s"
proof -
  from assms(1,2) have "dropWhile str_white_space s = s"
    by (cases s) simp_all
  moreover have "dropWhile str_white_space (rev s) = rev s"
  proof -
    have "hd (rev s) = last s" by (rule hd_rev)
    with assms(3) have "\<not> str_white_space (hd (rev s))" by simp
    moreover from assms(1) have "rev s \<noteq> []" by simp
    ultimately show ?thesis by (cases "rev s") simp_all
  qed
  ultimately show ?thesis
    by (simp add: trim_def)
qed

lemma non_decimal_literal_digits:
  assumes "\<forall>c \<in> set ds. is_digit 10 c"
  shows "non_decimal_literal ds = None"
proof (cases ds)
  case Nil
  then show ?thesis by (simp add: non_decimal_literal_def)
next
  case (Cons z t)
  show ?thesis
  proof (cases t)
    case Nil
    with Cons show ?thesis by (simp add: non_decimal_literal_def)
  next
    case (Cons x rest)
    with assms \<open>ds = z # t\<close> have "is_digit 10 x" by simp
    from digit_not_symbol [OF this] Cons \<open>ds = z # t\<close> show ?thesis
      by (simp add: non_decimal_literal_def)
  qed
qed

lemma unsigned_decimal_literal_digits:
  assumes "ds \<noteq> []" "\<forall>c \<in> set ds. is_digit 10 c"
  shows "unsigned_decimal_literal ds = Some (of_nat (digits_value 10 ds))"
proof -
  have t: "takeWhile (is_digit 10) ds = ds"
    using assms(2) by simp
  have d: "dropWhile (is_digit 10) ds = []"
    using assms(2) by simp
  show ?thesis
    using assms(1)
    by (simp add: unsigned_decimal_literal_def t d Let_def exponent_part_def scale_def)
qed

lemma signed_literal_digits:
  assumes "ds \<noteq> []" "\<forall>c \<in> set ds. is_digit 10 c"
  shows "signed_literal negative ds =
     (if negative then (if digits_value 10 ds = 0 then NegZero
                        else Finite (- of_nat (digits_value 10 ds)))
      else Finite (of_nat (digits_value 10 ds)))"
proof -
  from assms have "is_digit 10 (hd ds)" by (cases ds) simp_all
  then have "hd ds \<noteq> CHR ''I''" by (rule digit_not_symbol)
  then have "ds \<noteq> ''Infinity''" by auto
  then show ?thesis
    by (simp add: signed_literal_def unsigned_decimal_literal_digits [OF assms])
qed

lemma to_number_digits:
  assumes "ds \<noteq> []" "\<forall>c \<in> set ds. is_digit 10 c"
  shows "to_number ds = Finite (of_nat (digits_value 10 ds))"
proof -
  from assms have h: "is_digit 10 (hd ds)" and l: "is_digit 10 (last ds)"
    by (cases ds, simp_all)
  have tr: "trim ds = ds"
    using assms(1) h l by (intro trim_id digit_not_space)
  from digit_not_symbol [OF h] assms(1)
  have "str_decimal_literal ds = signed_literal False ds"
    by (cases ds) (simp_all add: str_decimal_literal_def)
  then show ?thesis
    using assms(1)
    by (simp add: to_number_def tr Let_def non_decimal_literal_digits [OF assms(2)]
        signed_literal_digits [OF assms])
qed

lemma to_number_minus_digits:
  assumes "ds \<noteq> []" "\<forall>c \<in> set ds. is_digit 10 c" "digits_value 10 ds \<noteq> 0"
  shows "to_number (CHR ''-'' # ds) = Finite (- of_nat (digits_value 10 ds))"
proof -
  from assms have l: "is_digit 10 (last ds)"
    by (cases ds, simp_all)
  have tr: "trim (CHR ''-'' # ds) = CHR ''-'' # ds"
    using assms(1) l by (intro trim_id) (simp_all add: minus_not_space digit_not_space)
  have nd: "non_decimal_literal (CHR ''-'' # ds) = None"
    by (cases ds) (simp_all add: non_decimal_literal_def)
  have "str_decimal_literal (CHR ''-'' # ds) = signed_literal True ds"
    by (simp add: str_decimal_literal_def)
  then show ?thesis
    using assms(3)
    by (simp add: to_number_def tr Let_def nd signed_literal_digits [OF assms(1,2)])
qed

lemma to_number_number_to_string: "to_number (number_to_string n) = Finite (of_int n)"
proof (cases "n < 0")
  case True
  let ?k = "nat (- n)"
  have v: "digits_value 10 (digits_of ?k) = ?k" by (rule digits_value_digits_of)
  with True have nz: "digits_value 10 (digits_of ?k) \<noteq> 0" by simp
  have "to_number (CHR ''-'' # digits_of ?k) = Finite (- of_nat (digits_value 10 (digits_of ?k)))"
    by (rule to_number_minus_digits [OF digits_of_nonempty _ nz]) (simp add: digits_of_digits)
  with True v show ?thesis
    by (simp add: number_to_string_def)
next
  case False
  let ?k = "nat n"
  have "to_number (digits_of ?k) = Finite (of_nat (digits_value 10 (digits_of ?k)))"
    by (rule to_number_digits [OF digits_of_nonempty]) (simp add: digits_of_digits)
  with False show ?thesis
    by (simp add: number_to_string_def digits_value_digits_of)
qed

lemma number_to_string_ascii: "\<forall>c \<in> set (number_to_string n). (of_char c :: nat) < 128"
  by (auto simp add: number_to_string_def dest: digits_of_digits digit_ascii)

lemma setTime_in_range:
  "\<bar>n\<bar> \<le> 8640000000000000 \<Longrightarrow> setTime (Finite (of_int n)) = Some (of_int n)"
proof -
  assume "\<bar>n\<bar> \<le> 8640000000000000"
  then have "\<bar>of_int n :: rat\<bar> \<le> 8640000000000000"
    by (metis of_int_abs of_int_le_iff of_int_numeral)
  then show ?thesis by (simp add: setTime_def to_integer_def)
qed

section \<open>Properties of tokens\<close>

lemma split_dots_nonempty: "split_dots s \<noteq> []"
  by (induction s) (simp_all split: list.split)

lemma split_dots_plain: "CHR ''.'' \<notin> set a \<Longrightarrow> split_dots a = [a]"
  by (induction a) auto

lemma split_dots_append:
  "CHR ''.'' \<notin> set a \<Longrightarrow> split_dots (a @ CHR ''.'' # rest) = a # split_dots rest"
  by (induction a) auto

lemma split_dots_no_dot: "x \<in> set (split_dots s) \<Longrightarrow> CHR ''.'' \<notin> set x"
proof (induction s arbitrary: x)
  case Nil
  then show ?case by simp
next
  case (Cons c cs)
  show ?case
  proof (cases "c = CHR ''.''")
    case True
    with Cons show ?thesis by auto
  next
    case False
    from split_dots_nonempty [of cs] obtain y ys where ys: "split_dots cs = y # ys"
      by (cases "split_dots cs") simp_all
    with False Cons.prems have "x = c # y \<or> x \<in> set ys" by simp
    with ys False Cons.IH show ?thesis by auto
  qed
qed

lemma split_dots_three:
  assumes "split_dots s = [a, b, c]"
  shows "s = a @ CHR ''.'' # b @ CHR ''.'' # c"
    and "CHR ''.'' \<notin> set a" "CHR ''.'' \<notin> set b" "CHR ''.'' \<notin> set c"
proof -
  have join: "split_dots s = xs \<Longrightarrow> s = concat (map (\<lambda>x. x @ ''.'') (butlast xs)) @ last xs"
    for s xs
  proof (induction s arbitrary: xs)
    case Nil
    then show ?case by auto
  next
    case (Cons c cs)
    from split_dots_nonempty [of cs] obtain y ys where ys: "split_dots cs = y # ys"
      by (cases "split_dots cs") simp_all
    from Cons.IH [OF ys] have cs: "cs = concat (map (\<lambda>x. x @ ''.'') (butlast (y # ys))) @ last (y # ys)" .
    show ?case
    proof (cases "c = CHR ''.''")
      case True
      with Cons.prems ys have "xs = [] # y # ys" by simp
      with True cs show ?thesis by simp
    next
      case False
      with Cons.prems ys have "xs = (c # y) # ys" by simp
      with cs show ?thesis by (cases ys) simp_all
    qed
  qed
  from join [OF assms] show "s = a @ CHR ''.'' # b @ CHR ''.'' # c" by simp
  from assms split_dots_no_dot [of _ s]
  show "CHR ''.'' \<notin> set a" "CHR ''.'' \<notin> set b" "CHR ''.'' \<notin> set c"
    by simp_all
qed

lemma unsign_last_segment:
  assumes "CHR ''.'' \<notin> set c"
  shows "unsign mac secret (v @ CHR ''.'' # c) = (if c = mac secret v then Inr v else Inl BadSignature)"
proof -
  have r: "rev (v @ CHR ''.'' # c) = rev c @ CHR ''.'' # rev v" by simp
  have c: "x \<noteq> CHR ''.''" if "x \<in> set (rev c)" for x
    using assms that by auto
  have "takeWhile (\<lambda>x. x \<noteq> CHR ''.'') (rev c @ CHR ''.'' # rev v)
          = rev c @ takeWhile (\<lambda>x. x \<noteq> CHR ''.'') (CHR ''.'' # rev v)"
    by (rule takeWhile_append2) (rule c)
  then have t: "takeWhile (\<lambda>x. x \<noteq> CHR ''.'') (rev c @ CHR ''.'' # rev v) = rev c"
    by simp
  have "dropWhile (\<lambda>x. x \<noteq> CHR ''.'') (rev c @ CHR ''.'' # rev v)
          = dropWhile (\<lambda>x. x \<noteq> CHR ''.'') (CHR ''.'' # rev v)"
    by (rule dropWhile_append2) (rule c)
  then have d: "dropWhile (\<lambda>x. x \<noteq> CHR ''.'') (rev c @ CHR ''.'' # rev v) = CHR ''.'' # rev v"
    by simp
  show ?thesis
    by (simp add: unsign_def Let_def r t d del: rev_append rev.simps)
qed

lemma split_dots_dotted: "CHR ''.'' \<in> set s \<Longrightarrow> 2 \<le> length (split_dots s)"
proof (induction s)
  case Nil
  then show ?case by simp
next
  case (Cons c cs)
  from split_dots_nonempty [of cs] obtain y ys where ys: "split_dots cs = y # ys"
    by (cases "split_dots cs") simp_all
  show ?case
  proof (cases "c = CHR ''.''")
    case True
    with ys show ?thesis by simp
  next
    case False
    with Cons ys show ?thesis by auto
  qed
qed

lemma decodeToken_not_three:
  "length (split_dots token) \<noteq> 3 \<Longrightarrow> decodeToken mac findOne token = (None, [])"
  by (simp add: decodeToken_def Let_def)

lemma setTime_NaN: "setTime NaN = None"
  by (simp add: setTime_def)

lemma decodeToken_three:
  assumes "split_dots token = [a, b, c]"
  shows "fst (decodeToken mac findOne token) =
     (case setTime (to_number (decodeBase64 b)) of
        None \<Rightarrow> None
      | Some t \<Rightarrow>
          (case findOne (decodeBase64 a) of
             None \<Rightarrow> None
           | Some u \<Rightarrow>
               if c = mac (salt u) (a @ ''.'' @ b)
               then Some \<lparr>token_snowflake = decodeBase64 a, token_timestamp = t,
                          token_hmac = a @ ''.'' @ b, token_user = u\<rparr>
               else None))"
proof -
  from split_dots_three [OF assms]
  have tok: "token = (a @ CHR ''.'' # b) @ CHR ''.'' # c" and c: "CHR ''.'' \<notin> set c"
    by simp_all
  have u: "unsign mac k token = (if c = mac k (a @ CHR ''.'' # b) then Inr (a @ CHR ''.'' # b)
                                 else Inl BadSignature)" for k
    unfolding tok by (rule unsign_last_segment [OF c])
  show ?thesis
    by (simp add: decodeToken_def Let_def assms u isNaN_def setTime_NaN
        split: option.split)
qed

lemma split_dots_single: "split_dots s = [c] \<Longrightarrow> s = c"
proof (induction s arbitrary: c)
  case Nil
  then show ?case by simp
next
  case (Cons x xs)
  from split_dots_nonempty [of xs] obtain y ys where ys: "split_dots xs = y # ys"
    by (cases "split_dots xs") simp_all
  show ?case
  proof (cases "x = CHR ''.''")
    case True
    with Cons.prems ys show ?thesis by simp
  next
    case False
    with Cons.prems ys have "c = x # y" "ys = []" by simp_all
    with ys Cons.IH [of y] show ?thesis by simp
  qed
qed

lemma createToken_ByObject:
  "createToken mac findById now (ByObject P) =
     Inr (encodeBase64 (snowflake P) @ CHR ''.'' # encodeBase64 (number_to_string now) @ CHR ''.'' #
          mac (salt P) (encodeBase64 (snowflake P) @ CHR ''.'' # encodeBase64 (number_to_string now)))"
  by (simp add: createToken_def and_then_def sign_def Let_def)

lemma split_dots_signed:
  "split_dots (encodeBase64 x @ CHR ''.'' # encodeBase64 y @ CHR ''.'' # sig)
     = encodeBase64 x # encodeBase64 y # split_dots sig"
  by (simp add: split_dots_append encodeBase64_no_dot)

lemma uintformat_dec_ascii: "\<forall>c \<in> set (uintformat_dec buf). (of_char c :: nat) < 128"
  by (auto simp add: uintformat_dec_def dest: digits_of_digits digit_ascii)

lemma Security_snowflake_ascii:
  "Security_snowflake flaker_next = Inr s \<Longrightarrow> \<forall>c \<in> set s. (of_char c :: nat) < 128"
  using uintformat_dec_ascii by (auto simp add: Security_snowflake_def split: sum.splits)

lemma newSnowflake_generated:
  "newSnowflake flaker_next user = Inr P \<Longrightarrow> Security_snowflake flaker_next = Inr (snowflake P)"
  by (auto simp add: newSnowflake_def split: sum.splits)

lemma time_value_in_range: "\<bar>Rep_time_value now\<bar> \<le> 8640000000000000"
  using Rep_time_value [of now] by simp

text \<open>
  C1. Let \<open>P\<close> be a user whose snowflake is one that \<open>Security.snowflake\<close> returned, as
  the snowflake of every user that \<open>newSnowflake\<close> has been called on is, and let the
  lookup by snowflake that verification makes find \<open>P\<close> itself, secret unchanged.
  Then signing for \<open>P\<close> at any time \<open>now\<close> of the clock returns a token, and
  \<open>decodeToken\<close> on that token returns a decoded token, not \<open>null\<close>: the one with the
  snowflake of \<open>P\<close>, the instant of signing, the two signed segments and \<open>P\<close>. The token
  is a token of the specification, three segments joined by dots: the signature that
  the signer, which the repository does not contain, gives for the two segments has no
  dot in it.
\<close>

theorem token_round_trip:
  assumes generated: "Security_snowflake flaker_next = Inr (snowflake P)"
    and found: "findOne (snowflake P) = Some P"
    and dotfree: "CHR ''.'' \<notin> set (mac (salt P)
        (encodeBase64 (snowflake P) @ ''.'' @ encodeBase64 (number_to_string (Rep_time_value now))))"
  shows "\<exists>token. createToken mac findById (Rep_time_value now) (ByObject P) = Inr token
    \<and> fst (decodeToken mac findOne token) =
        Some \<lparr>token_snowflake = snowflake P, token_timestamp = of_int (Rep_time_value now),
              token_hmac = encodeBase64 (snowflake P) @ ''.''
                @ encodeBase64 (number_to_string (Rep_time_value now)),
              token_user = P\<rparr>"
proof -
  let ?now = "Rep_time_value now"
  let ?sb = "encodeBase64 (snowflake P)"
  let ?tb = "encodeBase64 (number_to_string ?now)"
  let ?sig = "mac (salt P) (?sb @ CHR ''.'' # ?tb)"
  let ?token = "?sb @ CHR ''.'' # ?tb @ CHR ''.'' # ?sig"
  have ascii: "\<forall>c \<in> set (snowflake P). (of_char c :: nat) < 128"
    by (rule Security_snowflake_ascii [OF generated])
  have chunks: "split_dots ?token = [?sb, ?tb, ?sig]"
    using dotfree by (simp add: split_dots_signed split_dots_plain)
  have snow: "decodeBase64 ?sb = snowflake P"
    by (rule decodeBase64_encodeBase64 [OF ascii])
  have stamp: "decodeBase64 ?tb = number_to_string ?now"
    by (rule decodeBase64_encodeBase64 [OF number_to_string_ascii])
  have instant: "setTime (to_number (decodeBase64 ?tb)) = Some (of_int ?now)"
    by (simp only: stamp to_number_number_to_string setTime_in_range [OF time_value_in_range])
  have "fst (decodeToken mac findOne ?token) =
        Some \<lparr>token_snowflake = snowflake P, token_timestamp = of_int ?now,
              token_hmac = ?sb @ ''.'' @ ?tb, token_user = P\<rparr>"
    by (simp add: decodeToken_three [OF chunks] instant snow found)
  then show ?thesis
    by (simp add: createToken_ByObject)
qed

theorem token_round_trip_witness:
  "Security_snowflake (Inr alice_id) = Inr (snowflake alice)
   \<and> store_of alice (snowflake alice) = Some alice
   \<and> Rep_time_value (Abs_time_value 7) = 7
   \<and> createToken example_mac (store_of alice) 7 (ByObject alice)
       = Inr ''NDI=.Nw==.73314e44493d2e4e773d3d''
   \<and> fst (decodeToken example_mac (store_of alice) ''NDI=.Nw==.73314e44493d2e4e773d3d'')
       = Some \<lparr>token_snowflake = ''42'', token_timestamp = 7, token_hmac = ''NDI=.Nw=='',
               token_user = alice\<rparr>"
proof -
  have generated: "Security_snowflake (Inr alice_id) = Inr (snowflake alice)"
    by code_simp
  have found: "store_of alice (snowflake alice) = Some alice"
    by (simp add: store_of_def)
  have clock: "Rep_time_value (Abs_time_value 7) = 7"
    by (simp add: Abs_time_value_inverse)
  have dotfree: "CHR ''.'' \<notin> set (example_mac (salt alice)
        (encodeBase64 (snowflake alice) @ ''.''
           @ encodeBase64 (number_to_string (Rep_time_value (Abs_time_value 7)))))"
    unfolding clock by code_simp
  have made: "createToken example_mac (store_of alice) 7 (ByObject alice)
       = Inr ''NDI=.Nw==.73314e44493d2e4e773d3d''"
    by code_simp
  have segments: "encodeBase64 (snowflake alice) @ ''.'' @ encodeBase64 (number_to_string 7)
       = ''NDI=.Nw==''"
    by code_simp
  from token_round_trip [where P = alice and findOne = "store_of alice" and mac = example_mac
      and now = "Abs_time_value 7" and findById = "store_of alice"
      and flaker_next = "Inr alice_id", OF generated found dotfree]
    made segments generated found clock
  show ?thesis
    by (simp add: alice_def)
qed

text \<open>
  C2. \<open>decodeToken\<close> returns a decoded token only for a token of three segments whose
  third segment is the signature of the first two, joined by their dot, under the secret
  that the user named in the first segment has at the time of verification. So a token
  signed for a user is refused once the lookup gives that user with a secret under
  which the two segments have another signature, and a token that was accepted is
  refused when its third segment is replaced by any other text.
\<close>

theorem token_validity:
  "(fst (decodeToken mac findOne token) = Some d \<longrightarrow>
      (\<exists>a b c. split_dots token = [a, b, c] \<and> token = a @ ''.'' @ b @ ''.'' @ c
         \<and> findOne (decodeBase64 a) = Some (token_user d)
         \<and> c = mac (salt (token_user d)) (a @ ''.'' @ b)))
   \<and> (createToken mac findById now (ByObject P) = Inr signed
        \<and> findOne (decodeBase64 (encodeBase64 (snowflake P))) = Some P'
        \<and> mac (salt P') (encodeBase64 (snowflake P) @ ''.'' @ encodeBase64 (number_to_string now))
            \<noteq> mac (salt P) (encodeBase64 (snowflake P) @ ''.'' @ encodeBase64 (number_to_string now))
      \<longrightarrow> fst (decodeToken mac findOne signed) = None)
   \<and> (split_dots token = [a', b', c'] \<and> fst (decodeToken mac findOne token) = Some d
        \<and> altered \<noteq> c'
      \<longrightarrow> fst (decodeToken mac findOne (a' @ ''.'' @ b' @ ''.'' @ altered)) = None)"
proof (intro conjI impI)
  assume ok: "fst (decodeToken mac findOne token) = Some d"
  then have "length (split_dots token) = 3"
    using decodeToken_not_three [of token mac findOne] by fastforce
  then obtain a b c where chunks: "split_dots token = [a, b, c]"
    by (auto simp add: length_Suc_conv numeral_3_eq_3)
  from ok have "findOne (decodeBase64 a) = Some (token_user d)
      \<and> c = mac (salt (token_user d)) (a @ ''.'' @ b)"
    unfolding decodeToken_three [OF chunks]
    by (auto split: option.splits if_splits)
  with chunks split_dots_three(1) [OF chunks]
  show "\<exists>a b c. split_dots token = [a, b, c] \<and> token = a @ ''.'' @ b @ ''.'' @ c
         \<and> findOne (decodeBase64 a) = Some (token_user d)
         \<and> c = mac (salt (token_user d)) (a @ ''.'' @ b)"
    by auto
next
  let ?sb = "encodeBase64 (snowflake P)"
  let ?tb = "encodeBase64 (number_to_string now)"
  assume "createToken mac findById now (ByObject P) = Inr signed
        \<and> findOne (decodeBase64 ?sb) = Some P'
        \<and> mac (salt P') (?sb @ ''.'' @ ?tb) \<noteq> mac (salt P) (?sb @ ''.'' @ ?tb)"
  then have signed: "signed = ?sb @ CHR ''.'' # ?tb @ CHR ''.'' # mac (salt P) (?sb @ CHR ''.'' # ?tb)"
    and rotated: "findOne (decodeBase64 ?sb) = Some P'"
    and differs: "mac (salt P') (?sb @ CHR ''.'' # ?tb) \<noteq> mac (salt P) (?sb @ CHR ''.'' # ?tb)"
    by (simp_all add: createToken_ByObject)
  let ?sig = "mac (salt P) (?sb @ CHR ''.'' # ?tb)"
  have chunks: "split_dots signed = ?sb # ?tb # split_dots ?sig"
    unfolding signed by (rule split_dots_signed)
  show "fst (decodeToken mac findOne signed) = None"
  proof (cases "split_dots ?sig = [?sig]")
    case True
    with chunks have "split_dots signed = [?sb, ?tb, ?sig]" by simp
    from decodeToken_three [OF this] rotated differs show ?thesis
      by (simp split: option.split)
  next
    case False
    have "length (split_dots ?sig) \<noteq> 1"
    proof
      assume "length (split_dots ?sig) = 1"
      then obtain x where x: "split_dots ?sig = [x]"
        by (auto simp add: length_Suc_conv)
      from split_dots_single [OF this] x False show False by simp
    qed
    with chunks have "length (split_dots signed) \<noteq> 3" by simp
    then show ?thesis by (simp add: decodeToken_not_three)
  qed
next
  assume "split_dots token = [a', b', c'] \<and> fst (decodeToken mac findOne token) = Some d
        \<and> altered \<noteq> c'"
  then have chunks: "split_dots token = [a', b', c']"
    and ok: "fst (decodeToken mac findOne token) = Some d" and other: "altered \<noteq> c'"
    by simp_all
  from split_dots_three [OF chunks] have plain: "CHR ''.'' \<notin> set a'" "CHR ''.'' \<notin> set b'"
    by simp_all
  let ?changed = "a' @ CHR ''.'' # b' @ CHR ''.'' # altered"
  have changed: "split_dots ?changed = a' # b' # split_dots altered"
    using plain by (simp add: split_dots_append)
  show "fst (decodeToken mac findOne (a' @ ''.'' @ b' @ ''.'' @ altered)) = None"
  proof (cases "CHR ''.'' \<in> set altered")
    case True
    from split_dots_dotted [OF this] changed have "length (split_dots ?changed) \<noteq> 3"
      by simp
    then show ?thesis by (simp add: decodeToken_not_three)
  next
    case False
    with changed have three: "split_dots ?changed = [a', b', altered]"
      by (simp add: split_dots_plain)
    from ok other show ?thesis
      unfolding decodeToken_three [OF chunks]
      using decodeToken_three [OF three, of mac findOne]
      by (auto split: option.splits if_splits)
  qed
qed

theorem token_validity_witness:
  "createToken example_mac (store_of alice) 7 (ByObject alice)
     = Inr ''NDI=.Nw==.73314e44493d2e4e773d3d''
   \<and> split_dots ''NDI=.Nw==.73314e44493d2e4e773d3d'' = [''NDI='', ''Nw=='', ''73314e44493d2e4e773d3d'']
   \<and> fst (decodeToken example_mac (store_of alice) ''NDI=.Nw==.73314e44493d2e4e773d3d'')
       = Some \<lparr>token_snowflake = ''42'', token_timestamp = 7, token_hmac = ''NDI=.Nw=='',
               token_user = alice\<rparr>
   \<and> example_mac (salt alice) ''NDI=.Nw=='' = ''73314e44493d2e4e773d3d''
   \<and> fst (decodeToken example_mac (store_of alice_rotated) ''NDI=.Nw==.73314e44493d2e4e773d3d'')
       = None
   \<and> fst (decodeToken example_mac (store_of alice) ''NDI=.Nw==.73314e44493d2e4e773d3e'') = None"
proof -
  let ?token = "''NDI=.Nw==.73314e44493d2e4e773d3d''"
  let ?d = "\<lparr>token_snowflake = ''42'', token_timestamp = 7, token_hmac = ''NDI=.Nw=='',
             token_user = alice\<rparr>"
  have made: "createToken example_mac (store_of alice) 7 (ByObject alice) = Inr ?token"
    by code_simp
  have chunks: "split_dots ?token = [''NDI='', ''Nw=='', ''73314e44493d2e4e773d3d'']"
    by simp
  have ok: "fst (decodeToken example_mac (store_of alice) ?token) = Some ?d"
    by code_simp
  have rotated: "store_of alice_rotated (decodeBase64 (encodeBase64 (snowflake alice)))
      = Some alice_rotated"
    by code_simp
  have differs: "example_mac (salt alice_rotated)
        (encodeBase64 (snowflake alice) @ ''.'' @ encodeBase64 (number_to_string 7))
      \<noteq> example_mac (salt alice)
        (encodeBase64 (snowflake alice) @ ''.'' @ encodeBase64 (number_to_string 7))"
    by code_simp
  have sig: "example_mac (salt alice) ''NDI=.Nw=='' = ''73314e44493d2e4e773d3d''"
    by code_simp
  have other: "''73314e44493d2e4e773d3e'' \<noteq> ''73314e44493d2e4e773d3d''"
    by simp
  from token_validity [where mac = example_mac and findOne = "store_of alice" and token = ?token
      and d = ?d and a' = "''NDI=''" and b' = "''Nw==''" and c' = "''73314e44493d2e4e773d3d''"
      and altered = "''73314e44493d2e4e773d3e''"] chunks ok other
  have first: "fst (decodeToken example_mac (store_of alice) ''NDI=.Nw==.73314e44493d2e4e773d3e'') = None"
    by simp
  from token_validity [where mac = example_mac and findOne = "store_of alice_rotated"
      and findById = "store_of alice" and now = 7 and P = alice and signed = ?token
      and P' = alice_rotated] made rotated differs
  have second: "fst (decodeToken example_mac (store_of alice_rotated) ?token) = None"
    by simp
  from made chunks ok sig first second show ?thesis
    by simp
qed

text \<open>
  C3, as the code has it. \<open>decodeToken\<close> is a total function whose result is a decoded
  token or \<open>null\<close>; the exception of \<open>unsign\<close> is caught inside it. The result is
  \<open>null\<close> when the token does not split into three pieces at its dots, when the second
  piece does not decode to the text of a number that is a valid instant, when no user has
  the snowflake the first piece decodes to, and when the third piece is not the signature
  of the first two under that user's secret; in every other case it is the decoded token.
  The pieces need not be non-empty: an empty second piece is the instant 0.
\<close>

theorem decodeToken_outcomes:
  "(length (split_dots token) \<noteq> 3 \<longrightarrow> fst (decodeToken mac findOne token) = None)
   \<and> (split_dots token = [a, b, c] \<and> setTime (to_number (decodeBase64 b)) = None
        \<longrightarrow> fst (decodeToken mac findOne token) = None)
   \<and> (split_dots token = [a, b, c] \<and> findOne (decodeBase64 a) = None
        \<longrightarrow> fst (decodeToken mac findOne token) = None)
   \<and> (split_dots token = [a, b, c] \<and> findOne (decodeBase64 a) = Some u
        \<and> c \<noteq> mac (salt u) (a @ ''.'' @ b)
        \<longrightarrow> fst (decodeToken mac findOne token) = None)
   \<and> (split_dots token = [a, b, c] \<and> setTime (to_number (decodeBase64 b)) = Some t
        \<and> findOne (decodeBase64 a) = Some u \<and> c = mac (salt u) (a @ ''.'' @ b)
        \<longrightarrow> fst (decodeToken mac findOne token) =
              Some \<lparr>token_snowflake = decodeBase64 a, token_timestamp = t,
                    token_hmac = a @ ''.'' @ b, token_user = u\<rparr>)
   \<and> setTime (to_number (decodeBase64 [])) = Some 0"
proof -
  have empty: "setTime (to_number (decodeBase64 [])) = Some 0"
    by (simp add: decodeBase64_def base64_decode_def ascii_decode_def
        to_number_def trim_def setTime_def to_integer_def)
  have count: "length (split_dots token) \<noteq> 3 \<longrightarrow> fst (decodeToken mac findOne token) = None"
    by (simp add: decodeToken_not_three)
  have three: "split_dots token = [a, b, c] \<Longrightarrow>
      fst (decodeToken mac findOne token) =
        (case setTime (to_number (decodeBase64 b)) of
           None \<Rightarrow> None
         | Some t \<Rightarrow>
             (case findOne (decodeBase64 a) of
                None \<Rightarrow> None
              | Some u \<Rightarrow>
                  if c = mac (salt u) (a @ ''.'' @ b)
                  then Some \<lparr>token_snowflake = decodeBase64 a, token_timestamp = t,
                             token_hmac = a @ ''.'' @ b, token_user = u\<rparr>
                  else None))"
    by (rule decodeToken_three)
  show ?thesis
    using empty count three by (auto split: option.splits)
qed

theorem decodeToken_outcomes_witness:
  "fst (decodeToken example_mac (store_of alice) ''NDI=.Nw=='') = None
   \<and> fst (decodeToken example_mac (store_of alice) ''NDI=.SW5maW5pdHk=.00'') = None
   \<and> fst (decodeToken example_mac (store_of alice) ''NDM=.Nw==.00'') = None
   \<and> fst (decodeToken example_mac (store_of alice) ''NDI=.Nw==.00'') = None
   \<and> fst (decodeToken example_mac (store_of alice) ''NDI=.Nw==.73314e44493d2e4e773d3d'')
       = Some \<lparr>token_snowflake = ''42'', token_timestamp = 7, token_hmac = ''NDI=.Nw=='',
               token_user = alice\<rparr>"
proof -
  have two: "length (split_dots ''NDI=.Nw=='') \<noteq> 3"
    by simp
  have infinite: "split_dots ''NDI=.SW5maW5pdHk=.00'' = [''NDI='', ''SW5maW5pdHk='', ''00'']"
      "setTime (to_number (decodeBase64 ''SW5maW5pdHk='')) = None"
    by code_simp+
  have unknown: "split_dots ''NDM=.Nw==.00'' = [''NDM='', ''Nw=='', ''00'']"
      "store_of alice (decodeBase64 ''NDM='') = None"
    by code_simp+
  have mismatch: "split_dots ''NDI=.Nw==.00'' = [''NDI='', ''Nw=='', ''00'']"
      "store_of alice (decodeBase64 ''NDI='') = Some alice"
      "''00'' \<noteq> example_mac (salt alice) (''NDI='' @ ''.'' @ ''Nw=='')"
    by code_simp+
  have good: "split_dots ''NDI=.Nw==.73314e44493d2e4e773d3d''
        = [''NDI='', ''Nw=='', ''73314e44493d2e4e773d3d'']"
      "setTime (to_number (decodeBase64 ''Nw=='')) = Some 7"
      "''73314e44493d2e4e773d3d'' = example_mac (salt alice) (''NDI='' @ ''.'' @ ''Nw=='')"
      "decodeBase64 ''NDI='' = ''42''"
    by code_simp+
  from decodeToken_outcomes [where token = "''NDI=.Nw==''" and mac = example_mac
      and findOne = "store_of alice"] two
  have 1: "fst (decodeToken example_mac (store_of alice) ''NDI=.Nw=='') = None"
    by blast
  from decodeToken_outcomes [where token = "''NDI=.SW5maW5pdHk=.00''" and mac = example_mac
      and findOne = "store_of alice" and a = "''NDI=''" and b = "''SW5maW5pdHk=''" and c = "''00''"]
    infinite
  have 2: "fst (decodeToken example_mac (store_of alice) ''NDI=.SW5maW5pdHk=.00'') = None"
    by blast
  from decodeToken_outcomes [where token = "''NDM=.Nw==.00''" and mac = example_mac
      and findOne = "store_of alice" and a = "''NDM=''" and b = "''Nw==''" and c = "''00''"]
    unknown
  have 3: "fst (decodeToken example_mac (store_of alice) ''NDM=.Nw==.00'') = None"
    by blast
  from decodeToken_outcomes [where token = "''NDI=.Nw==.00''" and mac = example_mac
      and findOne = "store_of alice" and a = "''NDI=''" and b = "''Nw==''" and c = "''00''"
      and u = alice]
    mismatch
  have 4: "fst (decodeToken example_mac (store_of alice) ''NDI=.Nw==.00'') = None"
    by blast
  from decodeToken_outcomes [where token = "''NDI=.Nw==.73314e44493d2e4e773d3d''"
      and mac = example_mac and findOne = "store_of alice" and a = "''NDI=''" and b = "''Nw==''"
      and c = "''73314e44493d2e4e773d3d''" and u = alice and t = 7]
    good mismatch(2)
  have 5: "fst (decodeToken example_mac (store_of alice) ''NDI=.Nw==.73314e44493d2e4e773d3d'')
       = Some \<lparr>token_snowflake = ''42'', token_timestamp = 7, token_hmac = ''NDI=.Nw=='',
               token_user = alice\<rparr>"
    by simp
  from 1 2 3 4 5 show ?thesis by simp
qed

text \<open>
  The claim C3 as the specification states it fails for a string that is not made of
  three non-empty segments: with an empty second segment and the signature of
  \<open>NDI=.\<close> as third, the token of the user with snowflake 42 is accepted, for the
  instant 0.
\<close>

theorem decodeToken_empty_segment_counterexample:
  "split_dots ''NDI=..73314e44493d2e'' = [''NDI='', [], ''73314e44493d2e'']
   \<and> decodeToken example_mac (store_of alice) ''NDI=..73314e44493d2e'' =
       (Some \<lparr>token_snowflake = ''42'', token_timestamp = 0, token_hmac = ''NDI=.'',
               token_user = alice\<rparr>, [])"
proof -
  have "split_dots ''NDI=..73314e44493d2e'' = [''NDI='', [], ''73314e44493d2e'']"
    by simp
  moreover have "decodeToken example_mac (store_of alice) ''NDI=..73314e44493d2e'' =
       (Some \<lparr>token_snowflake = ''42'', token_timestamp = 0, token_hmac = ''NDI=.'',
               token_user = alice\<rparr>, [])"
    by code_simp
  ultimately show ?thesis by simp
qed


end
